theory Spec2Isabelle
  imports Main "HOL-Library.Char_ord" "HOL-Library.List_Lexorder" "HOL-Library.Multiset"
begin

section \<open>The subset builder of laion\_prepare.py\<close>

text \<open>
  The theory embeds \<^verbatim>\<open>build_subset\<close> of
  \<^verbatim>\<open>src/nemo_curator_semantic_dedup/laion_prepare.py\<close>: the loop over the sorted
  shard paths, the per-shard column resolution, the row cap, the lazily opened writer and
  the final close.

  Conventions of the embedding:
  \<^item> a path and a column name are a \<open>string\<close>; strings are compared as Python compares
    them (lexicographically, character by character), which is the order of
    \<open>HOL-Library.List_Lexorder\<close> over \<open>HOL-Library.Char_ord\<close>;
  \<^item> \<^verbatim>\<open>str.lower\<close> and \<^verbatim>\<open>str.upper\<close> are modelled on the ASCII letters; other
    characters are left as they are;
  \<^item> a Parquet file is a table: its column names in schema order and its rows, a row
    being the list of its cells in schema order; a cell is \<open>None\<close> (null) or a value.
    Physical column types are not modelled, so the schema of a table is the list of its
    column names;
  \<^item> the shard files are a function from paths to tables (the function receives only
    readable local paths); failures of the file system (a missing file, a full disk) are
    outside the embedding. The two errors that depend on the shards' column names are in
    it: the \<^verbatim>\<open>raise\<close> of line 71, and the \<^verbatim>\<open>ValueError\<close> with which
    \<^verbatim>\<open>ParquetWriter.write_table\<close> (line 81) refuses a table whose schema is not the
    schema the writer was opened with;
  \<^item> the writer is a record of the path and schema it was opened with, the batches it
    accepted in order, and whether \<^verbatim>\<open>close\<close> was called;
  \<^item> the reads, the directory creation and the printed lines are kept in an event list, in
    program order;
  \<^item> \<^verbatim>\<open>max_rows\<close> and the row counter are natural numbers (the row budget is a
    non-negative integer).
\<close>

subsection \<open>Strings\<close>

definition lower_char :: "char \<Rightarrow> char" where
  "lower_char c =
     (case map_of (zip ''ABCDEFGHIJKLMNOPQRSTUVWXYZ'' ''abcdefghijklmnopqrstuvwxyz'') c of
        Some d \<Rightarrow> d
      | None \<Rightarrow> c)"

definition upper_char :: "char \<Rightarrow> char" where
  "upper_char c =
     (case map_of (zip ''abcdefghijklmnopqrstuvwxyz'' ''ABCDEFGHIJKLMNOPQRSTUVWXYZ'') c of
        Some d \<Rightarrow> d
      | None \<Rightarrow> c)"

definition lower :: "string \<Rightarrow> string" where
  "lower s = map lower_char s"

definition upper :: "string \<Rightarrow> string" where
  "upper s = map upper_char s"

text \<open>\<^verbatim>\<open>os.path.dirname\<close> of \<^verbatim>\<open>posixpath\<close>: the part up to the last slash, with
  trailing slashes removed unless it consists of slashes only.\<close>

definition dirname :: "string \<Rightarrow> string" where
  "dirname p =
     (let head = rev (dropWhile (\<lambda>c. c \<noteq> CHR ''/'') (rev p))
      in if head \<noteq> [] \<and> head \<noteq> replicate (length head) (CHR ''/'')
         then rev (dropWhile (\<lambda>c. c = CHR ''/'') (rev head))
         else head)"

text \<open>The directory handed to \<^verbatim>\<open>os.makedirs\<close>:
  \<^verbatim>\<open>os.path.dirname(out_parquet) or "."\<close>.\<close>

definition out_dir :: "string \<Rightarrow> string" where
  "out_dir out_parquet = (if dirname out_parquet = [] then ''.'' else dirname out_parquet)"

subsection \<open>Tables, the writer and the state of a run\<close>

type_synonym cell = "string option"

record table =
  names :: "string list"
  rows :: "cell list list"

definition num_rows :: "table \<Rightarrow> nat" where
  "num_rows t = length (rows t)"

text \<open>\<^verbatim>\<open>table.slice(offset, length)\<close>.\<close>

definition slice :: "table \<Rightarrow> nat \<Rightarrow> nat \<Rightarrow> table" where
  "slice t offset len = t\<lparr>rows := take len (drop offset (rows t))\<rparr>"

text \<open>\<^verbatim>\<open>pq.read_schema(path).names\<close> and \<^verbatim>\<open>pq.read_table(path, columns=cols)\<close>: the
  table of the file restricted to the columns \<open>cols\<close>, in the order of \<open>cols\<close>. A name
  that the file does not have reads as nulls; resolution never asks for one
  (lemma \<open>resolve_columns_available\<close>).\<close>

definition read_schema :: "(string \<Rightarrow> table) \<Rightarrow> string \<Rightarrow> string list" where
  "read_schema fs path = names (fs path)"

definition cell_of :: "string list \<Rightarrow> cell list \<Rightarrow> string \<Rightarrow> cell" where
  "cell_of ns r c = (case map_of (zip ns r) c of Some v \<Rightarrow> v | None \<Rightarrow> None)"

definition read_table :: "(string \<Rightarrow> table) \<Rightarrow> string \<Rightarrow> string list \<Rightarrow> table" where
  "read_table fs path cols =
     \<lparr>names = cols,
      rows = map (\<lambda>r. map (cell_of (names (fs path)) r) cols) (rows (fs path))\<rparr>"

record parquet_writer =
  w_path :: string
  w_schema :: "string list"
  w_batches :: "table list"
  is_open :: bool

datatype message = WroteSoFar nat | FinalOutput string nat | NoDataWritten

datatype event =
    ReadSchema string
  | ReadTable string "string list"
  | Makedirs string
  | Print message

text \<open>The \<^verbatim>\<open>ValueError\<close> of the source (line 71) carries what its message prints: the
  requested columns, the path, and \<^verbatim>\<open>sorted(available)\<close>. \<open>TableSchemaError\<close> is the
  \<^verbatim>\<open>ValueError\<close> of \<^verbatim>\<open>ParquetWriter.write_table\<close> ("Table schema does not match schema
  used to create file"); it carries the schema of the table and the schema of the file.\<close>

datatype error =
    ValueError "string list" string "string list"
  | TableSchemaError "string list" "string list"

record run_state =
  writer :: "parquet_writer option"
  rows_written :: nat
  events :: "event list"

definition init_state :: run_state where
  "init_state = \<lparr>writer = None, rows_written = 0, events = []\<rparr>"

definition emit :: "event \<Rightarrow> run_state \<Rightarrow> run_state" where
  "emit e s = s\<lparr>events := events s @ [e]\<rparr>"

subsection \<open>Column resolution\<close>

text \<open>The inner loop of \<^verbatim>\<open>build_subset\<close> (lines 57 to 68): \<open>acc\<close> is
  \<^verbatim>\<open>resolved_cols\<close>, appended to in the order of the request.\<close>

fun resolve_loop :: "string set \<Rightarrow> string list \<Rightarrow> string list \<Rightarrow> string list" where
  "resolve_loop available [] acc = acc"
| "resolve_loop available (col # cols) acc =
     (if col \<in> available then resolve_loop available cols (acc @ [col])
      else if lower col \<in> available then resolve_loop available cols (acc @ [lower col])
      else if upper col = ''TEXT'' \<and> ''caption'' \<in> available
           then resolve_loop available cols (acc @ [''caption''])
      else resolve_loop available cols acc)"

definition resolve_columns :: "string set \<Rightarrow> string list \<Rightarrow> string list" where
  "resolve_columns available columns = resolve_loop available columns []"

text \<open>The precedence as the specification words it, one requested name at a time.\<close>

definition resolve_spec :: "string set \<Rightarrow> string \<Rightarrow> string option" where
  "resolve_spec available c =
     (if c \<in> available then Some c
      else if lower c \<in> available then Some (lower c)
      else if upper c = ''TEXT'' \<and> ''caption'' \<in> available then Some ''caption''
      else None)"

subsection \<open>The loop over the shards\<close>

datatype control = Raise error | Break | Continue

text \<open>One iteration of the loop (lines 53 to 85).\<close>

definition open_writer :: "string \<Rightarrow> table \<Rightarrow> run_state \<Rightarrow> run_state" where
  "open_writer out_parquet t s =
     (if writer s = None
      then (emit (Makedirs (out_dir out_parquet)) s)
             \<lparr>writer := Some \<lparr>w_path = out_parquet, w_schema = names t,
                               w_batches = [], is_open = True\<rparr>\<rparr>
      else s)"

text \<open>\<^verbatim>\<open>writer.write_table(table)\<close>: the library compares the schema of the table with
  the schema the writer was opened with and raises when they differ; otherwise the table is
  appended. At line 81 the writer is always there (line 79 has just opened it if it was not).\<close>

definition write_table :: "table \<Rightarrow> run_state \<Rightarrow> error + run_state" where
  "write_table t s =
     (case writer s of
        None \<Rightarrow> Inr s
      | Some w \<Rightarrow>
          if names t = w_schema w
          then Inr (s\<lparr>writer := Some (w\<lparr>w_batches := w_batches w @ [t]\<rparr>)\<rparr>)
          else Inl (TableSchemaError (names t) (w_schema w)))"

definition process_shard ::
  "(string \<Rightarrow> table) \<Rightarrow> string \<Rightarrow> nat \<Rightarrow> string list \<Rightarrow> string \<Rightarrow> run_state
     \<Rightarrow> control \<times> run_state" where
  "process_shard fs out_parquet max_rows columns path s =
     (let schema = read_schema fs path;
          s1 = emit (ReadSchema path) s;
          resolved_cols = resolve_columns (set schema) columns
      in if resolved_cols = []
         then (Raise (ValueError columns path (sort (remdups schema))), s1)
         else
           let full = read_table fs path resolved_cols;
               s2 = emit (ReadTable path resolved_cols) s1;
               t = (if max_rows \<noteq> 0 \<and> rows_written s2 + num_rows full > max_rows
                    then slice full 0 (max_rows - rows_written s2)
                    else full);
               s3 = open_writer out_parquet t s2
           in case write_table t s3 of
                Inl e \<Rightarrow> (Raise e, s3)
              | Inr s4 \<Rightarrow>
                  let s5 = s4\<lparr>rows_written := rows_written s4 + num_rows t\<rparr>;
                      s6 = emit (Print (WroteSoFar (rows_written s5))) s5
                  in if max_rows \<noteq> 0 \<and> rows_written s6 \<ge> max_rows
                     then (Break, s6)
                     else (Continue, s6))"

fun consume ::
  "(string \<Rightarrow> table) \<Rightarrow> string \<Rightarrow> nat \<Rightarrow> string list \<Rightarrow> string list \<Rightarrow> run_state
     \<Rightarrow> (error + unit) \<times> run_state" where
  "consume fs out_parquet max_rows columns [] s = (Inr (), s)"
| "consume fs out_parquet max_rows columns (path # rest) s =
     (case process_shard fs out_parquet max_rows columns path s of
        (Raise e, s') \<Rightarrow> (Inl e, s')
      | (Break, s') \<Rightarrow> (Inr (), s')
      | (Continue, s') \<Rightarrow> consume fs out_parquet max_rows columns rest s')"

text \<open>Lines 87 to 91, reached only when the loop ends without raising.\<close>

definition finish :: "string \<Rightarrow> run_state \<Rightarrow> run_state" where
  "finish out_parquet s =
     (case writer s of
        Some w \<Rightarrow>
          emit (Print (FinalOutput out_parquet (rows_written s)))
            (s\<lparr>writer := Some (w\<lparr>is_open := False\<rparr>)\<rparr>)
      | None \<Rightarrow> emit (Print NoDataWritten) s)"

definition build_subset ::
  "(string \<Rightarrow> table) \<Rightarrow> string list \<Rightarrow> string \<Rightarrow> nat \<Rightarrow> string list
     \<Rightarrow> (error + unit) \<times> run_state" where
  "build_subset fs shard_paths out_parquet max_rows columns =
     (case consume fs out_parquet max_rows columns (sort shard_paths) init_state of
        (Inl e, s) \<Rightarrow> (Inl e, s)
      | (Inr u, s) \<Rightarrow> (Inr u, finish out_parquet s))"

subsection \<open>Observations on a state\<close>

definition batches :: "run_state \<Rightarrow> table list" where
  "batches s = (case writer s of None \<Rightarrow> [] | Some w \<Rightarrow> w_batches w)"

definition output_rows :: "run_state \<Rightarrow> cell list list" where
  "output_rows s = concat (map rows (batches s))"

fun schemas_read :: "event list \<Rightarrow> string list" where
  "schemas_read [] = []"
| "schemas_read (ReadSchema p # es) = p # schemas_read es"
| "schemas_read (_ # es) = schemas_read es"

fun tables_read :: "event list \<Rightarrow> string list" where
  "tables_read [] = []"
| "tables_read (ReadTable p cols # es) = p # tables_read es"
| "tables_read (_ # es) = tables_read es"

text \<open>What a shard contributes under a request: its resolved columns and its projection.\<close>

definition resolved :: "(string \<Rightarrow> table) \<Rightarrow> string list \<Rightarrow> string \<Rightarrow> string list" where
  "resolved fs columns path = resolve_columns (set (read_schema fs path)) columns"

definition projected :: "(string \<Rightarrow> table) \<Rightarrow> string list \<Rightarrow> string \<Rightarrow> table" where
  "projected fs columns path = read_table fs path (resolved fs columns path)"

subsection \<open>Auxiliary notions for the proofs\<close>

fun dirs_made :: "event list \<Rightarrow> string list" where
  "dirs_made [] = []"
| "dirs_made (Makedirs d # es) = d # dirs_made es"
| "dirs_made (_ # es) = dirs_made es"

fun printed :: "event list \<Rightarrow> message list" where
  "printed [] = []"
| "printed (Print m # es) = m # printed es"
| "printed (_ # es) = printed es"

definition total_rows :: "(string \<Rightarrow> table) \<Rightarrow> string list \<Rightarrow> nat" where
  "total_rows fs ps = sum_list (map (\<lambda>p. num_rows (fs p)) ps)"

text \<open>The state after an iteration that wrote the batch \<open>t\<close> for the shard \<open>path\<close>.\<close>

definition wrote :: "string \<Rightarrow> string \<Rightarrow> string list \<Rightarrow> table \<Rightarrow> run_state \<Rightarrow> run_state" where
  "wrote out_parquet path cols t s =
     \<lparr>writer =
        Some (case writer s of
                None \<Rightarrow> \<lparr>w_path = out_parquet, w_schema = names t, w_batches = [t], is_open = True\<rparr>
              | Some w \<Rightarrow> w\<lparr>w_batches := w_batches w @ [t]\<rparr>),
      rows_written = rows_written s + num_rows t,
      events = events s @ [ReadSchema path, ReadTable path cols]
                 @ (if writer s = None then [Makedirs (out_dir out_parquet)] else [])
                 @ [Print (WroteSoFar (rows_written s + num_rows t))]\<rparr>"

text \<open>The state after a run of iterations that wrote every shard of \<open>ps\<close> in full.\<close>

definition wrote_all ::
  "(string \<Rightarrow> table) \<Rightarrow> string \<Rightarrow> string list \<Rightarrow> string list \<Rightarrow> run_state \<Rightarrow> run_state" where
  "wrote_all fs out_parquet columns ps s =
     foldl (\<lambda>s p. wrote out_parquet p (resolved fs columns p) (projected fs columns p) s) s ps"

text \<open>The schema of the writer of a state, if it was opened.\<close>

definition schema_of :: "run_state \<Rightarrow> string list option" where
  "schema_of s = map_option w_schema (writer s)"

text \<open>The schema of the writer after the shards of \<open>pre\<close> were written, when it was \<open>sch\<close>
  before.\<close>

definition schema_after ::
  "(string \<Rightarrow> table) \<Rightarrow> string list \<Rightarrow> string list option \<Rightarrow> string list
     \<Rightarrow> string list option" where
  "schema_after fs columns sch pre =
     (case sch of
        Some m \<Rightarrow> Some m
      | None \<Rightarrow> (case pre of [] \<Rightarrow> None | q # _ \<Rightarrow> Some (resolved fs columns q)))"

text \<open>A table with the column names \<open>ns\<close> is accepted by a writer whose schema is \<open>sch\<close>.\<close>

definition fits :: "string list option \<Rightarrow> string list \<Rightarrow> bool" where
  "fits sch ns = (case sch of None \<Rightarrow> True | Some m \<Rightarrow> ns = m)"

text \<open>The shards of \<open>ps\<close> all resolve, all to the schema \<open>sch\<close> of the writer (to the names
  of the first of them when the writer is not open yet) and, starting from \<open>rw\<close> rows, do
  not reach the cap.\<close>

definition runs_through ::
  "(string \<Rightarrow> table) \<Rightarrow> nat \<Rightarrow> string list \<Rightarrow> string list option \<Rightarrow> nat \<Rightarrow> string list
     \<Rightarrow> bool" where
  "runs_through fs max_rows columns sch rw ps =
     (list_all (\<lambda>p. resolved fs columns p \<noteq> []
                    \<and> resolved fs columns p
                        = (case sch of Some m \<Rightarrow> m | None \<Rightarrow> resolved fs columns (hd ps))) ps
      \<and> (max_rows = 0 \<or> rw + total_rows fs ps < max_rows))"

subsection \<open>Example shards\<close>

text \<open>A small store of shards for the concrete runs below: \<open>a.parquet\<close> (100 rows) spells
  its columns in lowercase and has a caption, \<open>b.parquet\<close> (100 rows) spells them as the
  default request does, \<open>c.parquet\<close> (2 rows) has the URL only, \<open>d.parquet\<close> (3 rows) has
  none of the requested columns; every other path is an empty table without columns.\<close>

definition example_rows :: "string \<Rightarrow> nat \<Rightarrow> nat \<Rightarrow> cell list list" where
  "example_rows tag width n =
     map (\<lambda>i. map (\<lambda>j. Some (tag @ replicate i (CHR ''r'') @ replicate j (CHR ''c''))) [0..<width])
       [0..<n]"

definition example_fs :: "string \<Rightarrow> table" where
  "example_fs path =
     (if path = ''a.parquet''
        then \<lparr>names = [''url'', ''caption'', ''id''], rows = example_rows ''a'' 3 100\<rparr>
      else if path = ''b.parquet''
        then \<lparr>names = [''URL'', ''TEXT''], rows = example_rows ''b'' 2 100\<rparr>
      else if path = ''c.parquet''
        then \<lparr>names = [''url''], rows = example_rows ''c'' 1 2\<rparr>
      else if path = ''d.parquet''
        then \<lparr>names = [''width'', ''id''], rows = example_rows ''d'' 2 3\<rparr>
      else \<lparr>names = [], rows = []\<rparr>)"

text \<open>The same store with a \<open>b.parquet\<close> that spells its columns as \<open>a.parquet\<close> does (in
  another order): under the default request both resolve to \<open>url\<close>, \<open>caption\<close>.\<close>

definition uniform_fs :: "string \<Rightarrow> table" where
  "uniform_fs path =
     (if path = ''b.parquet''
        then \<lparr>names = [''caption'', ''url''], rows = example_rows ''b'' 2 100\<rparr>
      else example_fs path)"

section \<open>Column resolution\<close>

lemma resolve_loop_acc:
  "resolve_loop available cols acc = acc @ resolve_loop available cols []"
proof (induction cols arbitrary: acc)
  case Nil
  show ?case by simp
next
  case (Cons c cols)
  have a: "\<And>x. resolve_loop available cols (acc @ [x]) = acc @ [x] @ resolve_loop available cols []"
    using Cons.IH [of "acc @ [x]" for x] by simp
  have b: "\<And>x. resolve_loop available cols [x] = [x] @ resolve_loop available cols []"
    using Cons.IH [of "[x]" for x] by simp
  show ?case
    using a b Cons.IH [of acc] by simp
qed

lemma resolve_columns_Nil [simp]: "resolve_columns available [] = []"
  by (simp add: resolve_columns_def)

lemma resolve_columns_Cons:
  "resolve_columns available (c # cols) =
     (case resolve_spec available c of None \<Rightarrow> [] | Some a \<Rightarrow> [a]) @ resolve_columns available cols"
  using resolve_loop_acc [of available cols "[x]" for x]
  by (simp add: resolve_columns_def resolve_spec_def)

lemma resolve_columns_map_filter:
  "resolve_columns available columns = List.map_filter (resolve_spec available) columns"
  by (induction columns) (simp_all add: resolve_columns_Cons split: option.split)

lemma resolve_spec_available: "resolve_spec available c = Some a \<Longrightarrow> a \<in> available"
  by (auto simp: resolve_spec_def split: if_splits)

lemma resolve_columns_available: "set (resolve_columns available columns) \<subseteq> available"
  by (induction columns)
    (auto simp: resolve_columns_Cons split: option.splits dest: resolve_spec_available [OF sym])

text \<open>
  Claim C3. For every set of available column names and every request, the resolved list
  is obtained by resolving the requested names one at a time, in the order of the request,
  each by the precedence: the name itself if it is available; else its lowercase if that
  is available; else \<open>caption\<close> if the uppercase of the name is \<open>TEXT\<close> and \<open>caption\<close> is
  available; else nothing. For the available names \<open>url\<close>, \<open>caption\<close> and the request
  \<open>URL\<close>, \<open>TEXT\<close> the result is \<open>url\<close>, \<open>caption\<close>.
\<close>

theorem resolve_columns_precedence:
  "resolve_columns available columns = List.map_filter (resolve_spec available) columns
   \<and> resolve_columns available (c # columns) =
       (if c \<in> available then [c]
        else if lower c \<in> available then [lower c]
        else if upper c = ''TEXT'' \<and> ''caption'' \<in> available then [''caption'']
        else []) @ resolve_columns available columns
   \<and> resolve_columns {''url'', ''caption''} [''URL'', ''TEXT''] = [''url'', ''caption'']"
proof -
  have ex: "resolve_columns {''url'', ''caption''} [''URL'', ''TEXT''] = [''url'', ''caption'']"
    by (simp add: resolve_columns_def lower_def upper_def lower_char_def upper_char_def)
  show ?thesis
    using ex by (simp add: resolve_columns_map_filter resolve_columns_Cons resolve_spec_def)
qed

section \<open>One iteration\<close>

lemma num_rows_projected [simp]: "num_rows (projected fs columns p) = num_rows (fs p)"
  by (simp add: projected_def read_table_def num_rows_def)

lemma length_rows_projected [simp]: "length (rows (projected fs columns p)) = num_rows (fs p)"
  by (simp add: projected_def read_table_def num_rows_def)

lemma names_projected [simp]: "names (projected fs columns p) = resolved fs columns p"
  by (simp add: projected_def read_table_def)

lemma names_slice [simp]: "names (slice t offset len) = names t"
  by (simp add: slice_def)

lemma rows_slice [simp]: "rows (slice t 0 len) = take len (rows t)"
  by (simp add: slice_def)

lemma num_rows_slice [simp]: "num_rows (slice t 0 len) = min len (num_rows t)"
  by (simp add: slice_def num_rows_def min.commute)

lemma slice_all: "num_rows t \<le> len \<Longrightarrow> slice t 0 len = t"
  by (simp add: slice_def num_rows_def)

lemma rows_written_emit [simp]: "rows_written (emit e s) = rows_written s"
  by (simp add: emit_def)

lemma writer_emit [simp]: "writer (emit e s) = writer s"
  by (simp add: emit_def)

lemma batches_emit [simp]: "batches (emit e s) = batches s"
  by (simp add: emit_def batches_def)

lemma events_emit [simp]: "events (emit e s) = events s @ [e]"
  by (simp add: emit_def)

lemma schema_of_emit [simp]: "schema_of (emit e s) = schema_of s"
  by (simp add: schema_of_def)

text \<open>Writing a table \<open>t\<close> for the shard \<open>path\<close>: the writer is opened if need be, and the
  write succeeds exactly when the names of \<open>t\<close> are the schema of the writer.\<close>

lemma write_after_open:
  "write_table t (open_writer out_parquet t (emit (ReadTable path cols) (emit (ReadSchema path) s))) =
     (case schema_of s of
        None \<Rightarrow>
          Inr ((emit (Makedirs (out_dir out_parquet))
                 (emit (ReadTable path cols) (emit (ReadSchema path) s)))
               \<lparr>writer := Some \<lparr>w_path = out_parquet, w_schema = names t,
                                 w_batches = [t], is_open = True\<rparr>\<rparr>)
      | Some m \<Rightarrow>
          if names t = m
          then Inr ((emit (ReadTable path cols) (emit (ReadSchema path) s))
                 \<lparr>writer := map_option (\<lambda>w. w\<lparr>w_batches := w_batches w @ [t]\<rparr>) (writer s)\<rparr>)
          else Inl (TableSchemaError (names t) m))"
  by (cases "writer s") (simp_all add: write_table_def open_writer_def schema_of_def emit_def)

lemma write_after_open_ok:
  assumes "case schema_of s of None \<Rightarrow> True | Some m \<Rightarrow> names t = m"
  shows "\<exists>s4. write_table t (open_writer out_parquet t
                  (emit (ReadTable path cols) (emit (ReadSchema path) s))) = Inr s4
     \<and> rows_written s4 = rows_written s
     \<and> emit (Print (WroteSoFar (rows_written s + num_rows t)))
          (s4\<lparr>rows_written := rows_written s + num_rows t\<rparr>)
        = wrote out_parquet path cols t s"
  using assms
  by (cases "writer s")
    (simp_all add: write_table_def open_writer_def schema_of_def emit_def wrote_def)

lemma process_shard_unfold:
  "process_shard fs out_parquet max_rows columns path s =
     (if resolved fs columns path = []
      then (Raise (ValueError columns path (sort (remdups (read_schema fs path)))),
            emit (ReadSchema path) s)
      else
        let t = (if max_rows \<noteq> 0 \<and> rows_written s + num_rows (fs path) > max_rows
                 then slice (projected fs columns path) 0 (max_rows - rows_written s)
                 else projected fs columns path);
            s3 = open_writer out_parquet t
                   (emit (ReadTable path (resolved fs columns path)) (emit (ReadSchema path) s))
        in case write_table t s3 of
             Inl e \<Rightarrow> (Raise e, s3)
           | Inr s4 \<Rightarrow>
               if max_rows \<noteq> 0 \<and> rows_written s4 + num_rows t \<ge> max_rows
               then (Break, emit (Print (WroteSoFar (rows_written s4 + num_rows t)))
                              (s4\<lparr>rows_written := rows_written s4 + num_rows t\<rparr>))
               else (Continue, emit (Print (WroteSoFar (rows_written s4 + num_rows t)))
                                 (s4\<lparr>rows_written := rows_written s4 + num_rows t\<rparr>)))"
proof -
  have n: "num_rows (read_table fs path cols) = num_rows (fs path)" for cols
    by (simp add: read_table_def num_rows_def)
  show ?thesis
    by (simp add: process_shard_def Let_def resolved_def projected_def n del: num_rows_slice
        split: sum.split)
qed

lemma process_shard_raise:
  assumes "resolved fs columns path = []"
  shows "process_shard fs out_parquet max_rows columns path s =
           (Raise (ValueError columns path (sort (remdups (read_schema fs path)))),
            emit (ReadSchema path) s)"
  using assms by (simp add: process_shard_unfold)

lemma process_shard_mismatch:
  assumes "resolved fs columns path \<noteq> []"
    and "schema_of s = Some m"
    and "resolved fs columns path \<noteq> m"
  shows "process_shard fs out_parquet max_rows columns path s =
           (Raise (TableSchemaError (resolved fs columns path) m),
            emit (ReadTable path (resolved fs columns path)) (emit (ReadSchema path) s))"
proof -
  have w: "writer s \<noteq> None"
    using assms(2) by (auto simp: schema_of_def)
  have o: "open_writer out_parquet t (emit e2 (emit e1 s)) = emit e2 (emit e1 s)" for t e1 e2
    using w by (simp add: open_writer_def)
  have x: "names t = resolved fs columns path \<Longrightarrow>
      write_table t (emit (ReadTable path cols) (emit (ReadSchema path) s))
      = Inl (TableSchemaError (resolved fs columns path) m)" for t cols
    using write_after_open [of t out_parquet path cols s] assms(3) by (simp add: o assms(2))
  show ?thesis
    using assms(1) by (simp add: process_shard_unfold Let_def o x)
qed

lemma process_shard_continue:
  assumes "resolved fs columns path \<noteq> []"
    and "case schema_of s of None \<Rightarrow> True | Some m \<Rightarrow> resolved fs columns path = m"
    and "max_rows = 0 \<or> rows_written s + num_rows (fs path) < max_rows"
  shows "process_shard fs out_parquet max_rows columns path s =
           (Continue, wrote out_parquet path (resolved fs columns path) (projected fs columns path) s)"
proof -
  have a: "case schema_of s of None \<Rightarrow> True | Some m \<Rightarrow> names (projected fs columns path) = m"
    using assms(2) by (simp split: option.splits)
  from write_after_open_ok [OF a, of out_parquet path "resolved fs columns path"]
  obtain s4 where s4: "write_table (projected fs columns path)
        (open_writer out_parquet (projected fs columns path)
          (emit (ReadTable path (resolved fs columns path)) (emit (ReadSchema path) s))) = Inr s4"
    and rw: "rows_written s4 = rows_written s"
    and w: "emit (Print (WroteSoFar (rows_written s + num_rows (projected fs columns path))))
          (s4\<lparr>rows_written := rows_written s + num_rows (projected fs columns path)\<rparr>)
        = wrote out_parquet path (resolved fs columns path) (projected fs columns path) s"
    by blast
  let ?t = "projected fs columns path"
  have t: "(if max_rows \<noteq> 0 \<and> max_rows < rows_written s + num_rows (fs path)
            then slice ?t 0 (max_rows - rows_written s) else ?t) = ?t"
    using assms(3) by auto
  have g: "\<not> (max_rows \<noteq> 0 \<and> max_rows \<le> rows_written s + num_rows ?t)"
    using assms(3) by auto
  have "process_shard fs out_parquet max_rows columns path s =
      (case write_table ?t (open_writer out_parquet ?t
              (emit (ReadTable path (resolved fs columns path)) (emit (ReadSchema path) s))) of
         Inl e \<Rightarrow> (Raise e, open_writer out_parquet ?t
              (emit (ReadTable path (resolved fs columns path)) (emit (ReadSchema path) s)))
       | Inr s4 \<Rightarrow>
           if max_rows \<noteq> 0 \<and> rows_written s4 + num_rows ?t \<ge> max_rows
           then (Break, emit (Print (WroteSoFar (rows_written s4 + num_rows ?t)))
                          (s4\<lparr>rows_written := rows_written s4 + num_rows ?t\<rparr>))
           else (Continue, emit (Print (WroteSoFar (rows_written s4 + num_rows ?t)))
                             (s4\<lparr>rows_written := rows_written s4 + num_rows ?t\<rparr>)))"
    using assms(1) by (simp only: process_shard_unfold Let_def t if_False)
  also have "\<dots> = (Continue, wrote out_parquet path (resolved fs columns path) ?t s)"
    using g w by (simp only: s4 rw sum.case if_False simp_thms)
  finally show ?thesis .
qed

lemma process_shard_break:
  assumes "resolved fs columns path \<noteq> []"
    and "case schema_of s of None \<Rightarrow> True | Some m \<Rightarrow> resolved fs columns path = m"
    and "max_rows \<noteq> 0"
    and "max_rows \<le> rows_written s + num_rows (fs path)"
  shows "process_shard fs out_parquet max_rows columns path s =
           (Break, wrote out_parquet path (resolved fs columns path)
                     (slice (projected fs columns path) 0 (max_rows - rows_written s)) s)"
proof -
  let ?t = "slice (projected fs columns path) 0 (max_rows - rows_written s)"
  have t: "(if max_rows \<noteq> 0 \<and> max_rows < rows_written s + num_rows (fs path)
            then ?t else projected fs columns path) = ?t"
    using assms(3,4) by (auto intro: slice_all [symmetric])
  have a: "case schema_of s of None \<Rightarrow> True | Some m \<Rightarrow> names ?t = m"
    using assms(2) by (simp split: option.splits)
  from write_after_open_ok [OF a, of out_parquet path "resolved fs columns path"]
  obtain s4 where s4: "write_table ?t
        (open_writer out_parquet ?t
          (emit (ReadTable path (resolved fs columns path)) (emit (ReadSchema path) s))) = Inr s4"
    and rw: "rows_written s4 = rows_written s"
    and w: "emit (Print (WroteSoFar (rows_written s + num_rows ?t)))
          (s4\<lparr>rows_written := rows_written s + num_rows ?t\<rparr>)
        = wrote out_parquet path (resolved fs columns path) ?t s"
    by blast
  have ge: "max_rows \<le> rows_written s + num_rows ?t"
    using assms(4) by auto
  have "process_shard fs out_parquet max_rows columns path s =
      (case write_table ?t (open_writer out_parquet ?t
              (emit (ReadTable path (resolved fs columns path)) (emit (ReadSchema path) s))) of
         Inl e \<Rightarrow> (Raise e, open_writer out_parquet ?t
              (emit (ReadTable path (resolved fs columns path)) (emit (ReadSchema path) s)))
       | Inr s4 \<Rightarrow>
           if max_rows \<noteq> 0 \<and> rows_written s4 + num_rows ?t \<ge> max_rows
           then (Break, emit (Print (WroteSoFar (rows_written s4 + num_rows ?t)))
                          (s4\<lparr>rows_written := rows_written s4 + num_rows ?t\<rparr>))
           else (Continue, emit (Print (WroteSoFar (rows_written s4 + num_rows ?t)))
                             (s4\<lparr>rows_written := rows_written s4 + num_rows ?t\<rparr>)))"
    using assms(1) by (simp only: process_shard_unfold Let_def t if_False)
  also have "\<dots> = (Break, wrote out_parquet path (resolved fs columns path) ?t s)"
    using ge assms(3) w by (simp only: s4 rw sum.case if_True simp_thms)
  finally show ?thesis .
qed


section \<open>Observations after an iteration\<close>

lemma schemas_read_append [simp]: "schemas_read (xs @ ys) = schemas_read xs @ schemas_read ys"
  by (induction xs rule: schemas_read.induct) simp_all

lemma tables_read_append [simp]: "tables_read (xs @ ys) = tables_read xs @ tables_read ys"
  by (induction xs rule: tables_read.induct) simp_all

lemma dirs_made_append [simp]: "dirs_made (xs @ ys) = dirs_made xs @ dirs_made ys"
  by (induction xs rule: dirs_made.induct) simp_all

lemma printed_append [simp]: "printed (xs @ ys) = printed xs @ printed ys"
  by (induction xs rule: printed.induct) simp_all

lemma rows_written_wrote [simp]:
  "rows_written (wrote out_parquet path cols t s) = rows_written s + num_rows t"
  by (simp add: wrote_def)

lemma batches_wrote [simp]:
  "batches (wrote out_parquet path cols t s) = batches s @ [t]"
  by (simp add: wrote_def batches_def split: option.split)

lemma schemas_read_wrote [simp]:
  "schemas_read (events (wrote out_parquet path cols t s)) = schemas_read (events s) @ [path]"
  by (simp add: wrote_def)

lemma tables_read_wrote [simp]:
  "tables_read (events (wrote out_parquet path cols t s)) = tables_read (events s) @ [path]"
  by (simp add: wrote_def)

lemma dirs_made_wrote [simp]:
  "dirs_made (events (wrote out_parquet path cols t s)) =
     dirs_made (events s) @ (if writer s = None then [out_dir out_parquet] else [])"
  by (simp add: wrote_def)

lemma printed_wrote [simp]:
  "printed (events (wrote out_parquet path cols t s)) =
     printed (events s) @ [WroteSoFar (rows_written s + num_rows t)]"
  by (simp add: wrote_def)

lemma writer_wrote:
  "writer (wrote out_parquet path cols t s) =
     (case writer s of
        None \<Rightarrow> Some \<lparr>w_path = out_parquet, w_schema = names t, w_batches = [t], is_open = True\<rparr>
      | Some w \<Rightarrow> Some (w\<lparr>w_batches := w_batches w @ [t]\<rparr>))"
  by (simp add: wrote_def split: option.split)

lemma writer_wrote_Some [simp]: "writer (wrote out_parquet path cols t s) \<noteq> None"
  by (simp add: wrote_def)

lemma schema_of_wrote:
  "schema_of (wrote out_parquet path cols t s) =
     Some (case schema_of s of None \<Rightarrow> names t | Some m \<Rightarrow> m)"
  by (simp add: wrote_def schema_of_def split: option.split)

section \<open>Observations after a run of full iterations\<close>

lemma wrote_all_Nil [simp]: "wrote_all fs out_parquet columns [] s = s"
  by (simp add: wrote_all_def)

lemma wrote_all_Cons [simp]:
  "wrote_all fs out_parquet columns (p # ps) s =
     wrote_all fs out_parquet columns ps
       (wrote out_parquet p (resolved fs columns p) (projected fs columns p) s)"
  by (simp add: wrote_all_def)

lemma total_rows_Nil [simp]: "total_rows fs [] = 0"
  by (simp add: total_rows_def)

lemma total_rows_Cons [simp]: "total_rows fs (p # ps) = num_rows (fs p) + total_rows fs ps"
  by (simp add: total_rows_def)

lemma total_rows_append [simp]: "total_rows fs (ps @ qs) = total_rows fs ps + total_rows fs qs"
  by (simp add: total_rows_def)

lemma rows_written_wrote_all [simp]:
  "rows_written (wrote_all fs out_parquet columns ps s) = rows_written s + total_rows fs ps"
  by (induction ps arbitrary: s) simp_all

lemma batches_wrote_all [simp]:
  "batches (wrote_all fs out_parquet columns ps s) = batches s @ map (projected fs columns) ps"
  by (induction ps arbitrary: s) simp_all

lemma schemas_read_wrote_all [simp]:
  "schemas_read (events (wrote_all fs out_parquet columns ps s)) = schemas_read (events s) @ ps"
  by (induction ps arbitrary: s) simp_all

lemma tables_read_wrote_all [simp]:
  "tables_read (events (wrote_all fs out_parquet columns ps s)) = tables_read (events s) @ ps"
  by (induction ps arbitrary: s) simp_all

lemma dirs_made_wrote_all [simp]:
  "dirs_made (events (wrote_all fs out_parquet columns ps s)) =
     dirs_made (events s) @ (if writer s = None \<and> ps \<noteq> [] then [out_dir out_parquet] else [])"
  by (induction ps arbitrary: s) simp_all

lemma no_data_wrote_all [simp]:
  "NoDataWritten \<in> set (printed (events (wrote_all fs out_parquet columns ps s)))
     \<longleftrightarrow> NoDataWritten \<in> set (printed (events s))"
  by (induction ps arbitrary: s) simp_all

lemma writer_wrote_all_None [simp]:
  "writer (wrote_all fs out_parquet columns ps s) = None \<longleftrightarrow> writer s = None \<and> ps = []"
  by (induction ps arbitrary: s) simp_all

lemma writer_wrote_all_Some:
  "writer s = Some w \<Longrightarrow>
   writer (wrote_all fs out_parquet columns ps s) =
     Some (w\<lparr>w_batches := w_batches w @ map (projected fs columns) ps\<rparr>)"
  by (induction ps arbitrary: s w) (simp_all add: writer_wrote)

lemma init_state_simps [simp]:
  "writer init_state = None" "rows_written init_state = 0" "events init_state = []"
  "batches init_state = []" "schema_of init_state = None"
  by (simp_all add: init_state_def batches_def schema_of_def)

lemma writer_wrote_all_wrote_init:
  "writer (wrote_all fs out_parquet columns ps
             (wrote out_parquet q (resolved fs columns q) (projected fs columns q) init_state)) =
     Some \<lparr>w_path = out_parquet, w_schema = resolved fs columns q,
           w_batches = projected fs columns q # map (projected fs columns) ps, is_open = True\<rparr>"
proof -
  have "writer (wrote out_parquet q (resolved fs columns q) (projected fs columns q) init_state) =
          Some \<lparr>w_path = out_parquet, w_schema = resolved fs columns q,
                w_batches = [projected fs columns q], is_open = True\<rparr>"
    by (simp add: writer_wrote)
  then show ?thesis
    by (simp add: writer_wrote_all_Some)
qed

lemma schema_of_wrote_all:
  "schema_of (wrote_all fs out_parquet columns ps s) = schema_after fs columns (schema_of s) ps"
proof (induction ps arbitrary: s)
  case Nil
  show ?case
    by (simp add: schema_after_def split: option.split)
next
  case (Cons p ps)
  show ?case
    by (simp add: Cons.IH schema_of_wrote schema_after_def split: option.split)
qed

section \<open>The loop\<close>

lemma runs_through_Nil [simp]:
  "runs_through fs max_rows columns sch rw [] \<longleftrightarrow> max_rows = 0 \<or> rw < max_rows"
  by (simp add: runs_through_def)

lemma runs_through_Cons:
  "runs_through fs max_rows columns sch rw (p # ps) \<longleftrightarrow>
     resolved fs columns p \<noteq> []
     \<and> fits sch (resolved fs columns p)
     \<and> (max_rows = 0 \<or> rw + num_rows (fs p) < max_rows)
     \<and> runs_through fs max_rows columns (Some (resolved fs columns p)) (rw + num_rows (fs p)) ps"
proof -
  have cap: "(max_rows = 0 \<or> rw + total_rows fs (p # ps) < max_rows) \<longleftrightarrow>
      (max_rows = 0 \<or> rw + num_rows (fs p) < max_rows)
      \<and> (max_rows = 0 \<or> rw + num_rows (fs p) + total_rows fs ps < max_rows)"
    by (simp add: add.assoc) linarith
  show ?thesis
  proof (cases sch)
    case None
    have "(\<forall>q\<in>set ps. resolved fs columns q \<noteq> []
            \<and> resolved fs columns q = resolved fs columns p)
        \<longleftrightarrow> list_all (\<lambda>q. resolved fs columns q \<noteq> []
            \<and> resolved fs columns q = resolved fs columns p) ps"
      by (simp add: list_all_iff)
    then show ?thesis
      unfolding runs_through_def cap fits_def None
      by (simp only: list.pred_inject list.sel option.case simp_thms) blast
  next
    case (Some m)
    show ?thesis
      unfolding runs_through_def cap fits_def Some
      by (simp only: list.pred_inject list.sel option.case simp_thms) blast
  qed
qed

lemma runs_through_iff:
  "runs_through fs max_rows columns None rw ps \<longleftrightarrow>
     (\<forall>p\<in>set ps. resolved fs columns p \<noteq> []
        \<and> resolved fs columns p = resolved fs columns (hd ps))
     \<and> (max_rows = 0 \<or> rw + total_rows fs ps < max_rows)"
  by (simp add: runs_through_def list_all_iff)

lemma consume_through:
  assumes "runs_through fs max_rows columns (schema_of s) (rows_written s) pre"
  shows "consume fs out_parquet max_rows columns (pre @ rest) s =
           consume fs out_parquet max_rows columns rest (wrote_all fs out_parquet columns pre s)"
  using assms
proof (induction pre arbitrary: s)
  case Nil
  show ?case by simp
next
  case (Cons p pre)
  from Cons.prems have r: "resolved fs columns p \<noteq> []"
    and f: "fits (schema_of s) (resolved fs columns p)"
    and c: "max_rows = 0 \<or> rows_written s + num_rows (fs p) < max_rows"
    and t: "runs_through fs max_rows columns (Some (resolved fs columns p))
              (rows_written s + num_rows (fs p)) pre"
    by (simp_all add: runs_through_Cons)
  let ?s' = "wrote out_parquet p (resolved fs columns p) (projected fs columns p) s"
  have f': "case schema_of s of None \<Rightarrow> True | Some m \<Rightarrow> resolved fs columns p = m"
    using f by (simp add: fits_def)
  have "schema_of ?s' = Some (resolved fs columns p)"
    using f by (simp add: schema_of_wrote fits_def split: option.splits)
  then have "runs_through fs max_rows columns (schema_of ?s') (rows_written ?s') pre"
    using t by simp
  from Cons.IH [OF this] show ?case
    by (simp add: process_shard_continue [OF r f' c])
qed

lemma shards_split:
  assumes "max_rows = 0 \<or> rw < max_rows"
  shows "runs_through fs max_rows columns sch rw ps
         \<or> (\<exists>pre p rest. ps = pre @ p # rest \<and> runs_through fs max_rows columns sch rw pre
              \<and> (resolved fs columns p = []
                  \<or> resolved fs columns p \<noteq> []
                    \<and> \<not> fits (schema_after fs columns sch pre) (resolved fs columns p)
                  \<or> resolved fs columns p \<noteq> []
                    \<and> fits (schema_after fs columns sch pre) (resolved fs columns p)
                    \<and> max_rows \<noteq> 0
                    \<and> max_rows \<le> rw + total_rows fs pre + num_rows (fs p)))"
  using assms
proof (induction ps arbitrary: rw sch)
  case Nil
  then show ?case by simp
next
  case (Cons q qs)
  show ?case
  proof (cases "resolved fs columns q \<noteq> [] \<and> fits sch (resolved fs columns q)
      \<and> (max_rows = 0 \<or> rw + num_rows (fs q) < max_rows)")
    case False
    have a: "schema_after fs columns sch [] = sch"
      by (simp add: schema_after_def split: option.split)
    have "q # qs = [] @ q # qs \<and> runs_through fs max_rows columns sch rw []
        \<and> (resolved fs columns q = []
            \<or> resolved fs columns q \<noteq> []
              \<and> \<not> fits (schema_after fs columns sch []) (resolved fs columns q)
            \<or> resolved fs columns q \<noteq> []
              \<and> fits (schema_after fs columns sch []) (resolved fs columns q)
              \<and> max_rows \<noteq> 0
              \<and> max_rows \<le> rw + total_rows fs [] + num_rows (fs q))"
    proof (intro conjI)
      show "q # qs = [] @ q # qs" by simp
      show "runs_through fs max_rows columns sch rw []"
        using Cons.prems by simp
      show "resolved fs columns q = []
            \<or> resolved fs columns q \<noteq> []
              \<and> \<not> fits (schema_after fs columns sch []) (resolved fs columns q)
            \<or> resolved fs columns q \<noteq> []
              \<and> fits (schema_after fs columns sch []) (resolved fs columns q)
              \<and> max_rows \<noteq> 0
              \<and> max_rows \<le> rw + total_rows fs [] + num_rows (fs q)"
      proof (cases "resolved fs columns q = []")
        case True
        then show ?thesis by simp
      next
        case r: False
        show ?thesis
        proof (cases "fits sch (resolved fs columns q)")
          case True
          with False r have "max_rows \<noteq> 0 \<and> max_rows \<le> rw + num_rows (fs q)"
            by simp
          with True r show ?thesis by (simp add: a)
        next
          case False
          with r show ?thesis by (simp add: a)
        qed
      qed
    qed
    then show ?thesis by blast
  next
    case True
    then have ok: "max_rows = 0 \<or> rw + num_rows (fs q) < max_rows" by simp
    have a: "schema_after fs columns sch (q # pre)
        = schema_after fs columns (Some (resolved fs columns q)) pre" for pre
      using True by (simp add: schema_after_def fits_def split: option.splits)
    from Cons.IH [OF ok, of "Some (resolved fs columns q)"] show ?thesis
    proof
      assume "runs_through fs max_rows columns (Some (resolved fs columns q))
          (rw + num_rows (fs q)) qs"
      then show ?thesis using True by (simp add: runs_through_Cons)
    next
      assume "\<exists>pre p rest. qs = pre @ p # rest
          \<and> runs_through fs max_rows columns (Some (resolved fs columns q)) (rw + num_rows (fs q)) pre
          \<and> (resolved fs columns p = []
              \<or> resolved fs columns p \<noteq> []
                \<and> \<not> fits (schema_after fs columns (Some (resolved fs columns q)) pre)
                      (resolved fs columns p)
              \<or> resolved fs columns p \<noteq> []
                \<and> fits (schema_after fs columns (Some (resolved fs columns q)) pre)
                    (resolved fs columns p)
                \<and> max_rows \<noteq> 0
                \<and> max_rows \<le> rw + num_rows (fs q) + total_rows fs pre + num_rows (fs p))"
      then obtain pre p rest where d: "qs = pre @ p # rest"
        and t: "runs_through fs max_rows columns (Some (resolved fs columns q))
                  (rw + num_rows (fs q)) pre"
        and e: "resolved fs columns p = []
              \<or> resolved fs columns p \<noteq> []
                \<and> \<not> fits (schema_after fs columns (Some (resolved fs columns q)) pre)
                      (resolved fs columns p)
              \<or> resolved fs columns p \<noteq> []
                \<and> fits (schema_after fs columns (Some (resolved fs columns q)) pre)
                    (resolved fs columns p)
                \<and> max_rows \<noteq> 0
                \<and> max_rows \<le> rw + num_rows (fs q) + total_rows fs pre + num_rows (fs p)"
        by blast
      have "q # qs = (q # pre) @ p # rest" using d by simp
      moreover have "runs_through fs max_rows columns sch rw (q # pre)"
        using True t by (simp add: runs_through_Cons)
      moreover have "resolved fs columns p = []
              \<or> resolved fs columns p \<noteq> []
                \<and> \<not> fits (schema_after fs columns sch (q # pre)) (resolved fs columns p)
              \<or> resolved fs columns p \<noteq> []
                \<and> fits (schema_after fs columns sch (q # pre)) (resolved fs columns p)
                \<and> max_rows \<noteq> 0
                \<and> max_rows \<le> rw + total_rows fs (q # pre) + num_rows (fs p)"
        using e by (simp add: a add.assoc)
      ultimately show ?thesis by blast
    qed
  qed
qed


section \<open>The four ways a run ends\<close>

lemma fits_after_None:
  "fits (schema_after fs columns None pre) ns \<longleftrightarrow> pre = [] \<or> ns = resolved fs columns (hd pre)"
  by (cases pre) (simp_all add: fits_def schema_after_def)

lemma build_subset_through:
  assumes "runs_through fs max_rows columns None 0 (sort shard_paths)"
  shows "build_subset fs shard_paths out_parquet max_rows columns =
           (Inr (), finish out_parquet (wrote_all fs out_parquet columns (sort shard_paths) init_state))"
proof -
  have "runs_through fs max_rows columns (schema_of init_state) (rows_written init_state)
      (sort shard_paths)"
    using assms by simp
  from consume_through [OF this, of out_parquet "[]"] show ?thesis
    by (simp add: build_subset_def)
qed

lemma build_subset_raise:
  assumes "sort shard_paths = pre @ p # rest"
    and "runs_through fs max_rows columns None 0 pre"
    and "resolved fs columns p = []"
  shows "build_subset fs shard_paths out_parquet max_rows columns =
           (Inl (ValueError columns p (sort (remdups (read_schema fs p)))),
            emit (ReadSchema p) (wrote_all fs out_parquet columns pre init_state))"
proof -
  have "runs_through fs max_rows columns (schema_of init_state) (rows_written init_state) pre"
    using assms(2) by simp
  from consume_through [OF this, of out_parquet "p # rest"] show ?thesis
    by (simp add: build_subset_def assms(1) process_shard_raise [OF assms(3)])
qed

lemma build_subset_mismatch:
  assumes "sort shard_paths = pre @ p # rest"
    and "runs_through fs max_rows columns None 0 pre"
    and "pre \<noteq> []"
    and "resolved fs columns p \<noteq> []"
    and "resolved fs columns p \<noteq> resolved fs columns (hd pre)"
  shows "build_subset fs shard_paths out_parquet max_rows columns =
           (Inl (TableSchemaError (resolved fs columns p) (resolved fs columns (hd pre))),
            emit (ReadTable p (resolved fs columns p))
              (emit (ReadSchema p) (wrote_all fs out_parquet columns pre init_state)))"
proof -
  let ?W = "wrote_all fs out_parquet columns pre init_state"
  have t: "runs_through fs max_rows columns (schema_of init_state) (rows_written init_state) pre"
    using assms(2) by simp
  have "schema_of ?W = Some (resolved fs columns (hd pre))"
    unfolding schema_of_wrote_all using assms(3) by (cases pre) (simp_all add: schema_after_def)
  from process_shard_mismatch [OF assms(4) this assms(5), of out_parquet max_rows]
    consume_through [OF t, of out_parquet "p # rest"]
  show ?thesis
    by (simp add: build_subset_def assms(1))
qed

lemma build_subset_break:
  assumes "sort shard_paths = pre @ p # rest"
    and "runs_through fs max_rows columns None 0 pre"
    and "resolved fs columns p \<noteq> []"
    and "pre = [] \<or> resolved fs columns p = resolved fs columns (hd pre)"
    and "max_rows \<noteq> 0"
    and "max_rows \<le> total_rows fs pre + num_rows (fs p)"
  shows "build_subset fs shard_paths out_parquet max_rows columns =
           (Inr (), finish out_parquet
              (wrote out_parquet p (resolved fs columns p)
                 (slice (projected fs columns p) 0 (max_rows - total_rows fs pre))
                 (wrote_all fs out_parquet columns pre init_state)))"
proof -
  let ?W = "wrote_all fs out_parquet columns pre init_state"
  have t: "runs_through fs max_rows columns (schema_of init_state) (rows_written init_state) pre"
    using assms(2) by simp
  have b: "max_rows \<le> rows_written ?W + num_rows (fs p)"
    using assms(6) by simp
  have "fits (schema_of ?W) (resolved fs columns p)"
    using assms(4) by (simp add: schema_of_wrote_all fits_after_None)
  then have f: "case schema_of ?W of None \<Rightarrow> True | Some m \<Rightarrow> resolved fs columns p = m"
    by (simp add: fits_def)
  have "process_shard fs out_parquet max_rows columns p ?W =
          (Break, wrote out_parquet p (resolved fs columns p)
                    (slice (projected fs columns p) 0 (max_rows - total_rows fs pre)) ?W)"
    using process_shard_break [OF assms(3) f assms(5) b, of out_parquet] by simp
  with consume_through [OF t, of out_parquet "p # rest"] show ?thesis
    by (simp add: build_subset_def assms(1))
qed

lemma build_subset_cases [case_names through raise mismatch break]:
  obtains
    (through) "runs_through fs max_rows columns None 0 (sort shard_paths)"
  | (raise) pre p rest where "sort shard_paths = pre @ p # rest"
      "runs_through fs max_rows columns None 0 pre" "resolved fs columns p = []"
  | (mismatch) pre p rest where "sort shard_paths = pre @ p # rest"
      "runs_through fs max_rows columns None 0 pre" "pre \<noteq> []"
      "resolved fs columns p \<noteq> []"
      "resolved fs columns p \<noteq> resolved fs columns (hd pre)"
  | (break) pre p rest where "sort shard_paths = pre @ p # rest"
      "runs_through fs max_rows columns None 0 pre" "resolved fs columns p \<noteq> []"
      "pre = [] \<or> resolved fs columns p = resolved fs columns (hd pre)"
      "max_rows \<noteq> 0" "max_rows \<le> total_rows fs pre + num_rows (fs p)"
proof -
  have "max_rows = 0 \<or> 0 < max_rows" by auto
  from shards_split [OF this, of fs columns None "sort shard_paths"]
  consider "runs_through fs max_rows columns None 0 (sort shard_paths)"
    | pre p rest where "sort shard_paths = pre @ p # rest"
        "runs_through fs max_rows columns None 0 pre"
        "resolved fs columns p = []
         \<or> resolved fs columns p \<noteq> []
           \<and> \<not> fits (schema_after fs columns None pre) (resolved fs columns p)
         \<or> resolved fs columns p \<noteq> []
           \<and> fits (schema_after fs columns None pre) (resolved fs columns p)
           \<and> max_rows \<noteq> 0
           \<and> max_rows \<le> 0 + total_rows fs pre + num_rows (fs p)"
    by blast
  then show thesis
  proof cases
    case 1
    then show ?thesis by (rule through)
  next
    case (2 pre p rest)
    from 2(3) consider "resolved fs columns p = []"
      | "resolved fs columns p \<noteq> []" "pre \<noteq> []"
        "resolved fs columns p \<noteq> resolved fs columns (hd pre)"
      | "resolved fs columns p \<noteq> []"
        "pre = [] \<or> resolved fs columns p = resolved fs columns (hd pre)"
        "max_rows \<noteq> 0" "max_rows \<le> total_rows fs pre + num_rows (fs p)"
      unfolding fits_after_None by (elim disjE conjE) simp_all
    then show ?thesis
    proof cases
      case 1
      show ?thesis by (rule raise [OF 2(1) 2(2) 1])
    next
      case m: 2
      show ?thesis by (rule mismatch [OF 2(1) 2(2) m(2) m(1) m(3)])
    next
      case 3
      show ?thesis by (rule break [OF 2(1) 2(2) 3])
    qed
  qed
qed

section \<open>Observations after the final lines\<close>

lemma batches_finish [simp]: "batches (finish out_parquet s) = batches s"
  by (simp add: finish_def batches_def split: option.split)

lemma rows_written_finish [simp]: "rows_written (finish out_parquet s) = rows_written s"
  by (simp add: finish_def split: option.split)

lemma schemas_read_finish [simp]:
  "schemas_read (events (finish out_parquet s)) = schemas_read (events s)"
  by (simp add: finish_def split: option.split)

lemma tables_read_finish [simp]:
  "tables_read (events (finish out_parquet s)) = tables_read (events s)"
  by (simp add: finish_def split: option.split)

lemma dirs_made_finish [simp]:
  "dirs_made (events (finish out_parquet s)) = dirs_made (events s)"
  by (simp add: finish_def split: option.split)

lemma printed_finish:
  "printed (events (finish out_parquet s)) =
     printed (events s)
     @ [if writer s = None then NoDataWritten else FinalOutput out_parquet (rows_written s)]"
  by (simp add: finish_def emit_def split: option.split)

lemma writer_finish:
  "writer (finish out_parquet s) = map_option (\<lambda>w. w\<lparr>is_open := False\<rparr>) (writer s)"
  by (simp add: finish_def split: option.split)

lemma writer_finish_None [simp]: "writer (finish out_parquet s) = None \<longleftrightarrow> writer s = None"
  by (simp add: writer_finish)


section \<open>Row counts\<close>



lemma sum_num_rows_projected [simp]:
  "sum_list (map (num_rows \<circ> projected fs columns) ps) = total_rows fs ps"
  by (simp add: total_rows_def comp_def)

lemma length_concat_projected [simp]:
  "length (concat (map (\<lambda>q. rows (projected fs columns q)) ps)) = total_rows fs ps"
  by (induction ps) simp_all

lemma total_rows_sort [simp]: "total_rows fs (sort ps) = total_rows fs ps"
proof -
  have "sum_mset (image_mset (\<lambda>p. num_rows (fs p)) (mset (sort ps)))
          = sum_mset (image_mset (\<lambda>p. num_rows (fs p)) (mset ps))"
    by simp
  then show ?thesis
    unfolding total_rows_def by (metis mset_map sum_mset_sum_list)
qed

lemma sort_eq_Nil: "sort ps = [] \<longleftrightarrow> ps = []"
  by (metis length_0_conv length_sort)


lemma sort_mset_eq: "mset ps = mset qs \<Longrightarrow> sort ps = sort qs"
  by (metis mset_sort properties_for_sort sorted_sort)

lemma uniform_runs_through:
  assumes "\<forall>q\<in>set pre. resolved fs columns q = m"
    and "m \<noteq> []"
    and "max_rows = 0 \<or> total_rows fs pre < max_rows"
  shows "runs_through fs max_rows columns None 0 pre"
proof (cases pre)
  case Nil
  then show ?thesis using assms(3) by simp
next
  case (Cons q qs)
  then have "resolved fs columns (hd pre) = m"
    using assms(1) by simp
  then show ?thesis
    using assms by (simp add: runs_through_iff)
qed

lemma runs_through_uniform:
  assumes "runs_through fs max_rows columns None 0 ps"
  shows "\<forall>q\<in>set ps. resolved fs columns q \<noteq> []
      \<and> resolved fs columns q = resolved fs columns (hd ps)"
    and "max_rows = 0 \<or> total_rows fs ps < max_rows"
  using assms by (auto simp: runs_through_iff)


lemma build_subset_truncates:
  assumes "sort shard_paths = pre @ p # rest"
    and "\<forall>q\<in>set pre. resolved fs columns q = resolved fs columns p"
    and "resolved fs columns p \<noteq> []"
    and "total_rows fs pre < max_rows"
    and "max_rows \<le> total_rows fs pre + num_rows (fs p)"
  shows "build_subset fs shard_paths out_parquet max_rows columns =
           (Inr (), finish out_parquet
              (wrote out_parquet p (resolved fs columns p)
                 (slice (projected fs columns p) 0 (max_rows - total_rows fs pre))
                 (wrote_all fs out_parquet columns pre init_state)))"
proof -
  have t: "runs_through fs max_rows columns None 0 pre"
    using assms(2,3,4) by (intro uniform_runs_through [of _ _ _ "resolved fs columns p"]) simp_all
  have m: "max_rows \<noteq> 0" using assms(4) by simp
  have h: "pre = [] \<or> resolved fs columns p = resolved fs columns (hd pre)"
    using assms(2) by (cases pre) simp_all
  show ?thesis
    by (rule build_subset_break [OF assms(1) t assms(3) h m assms(5)])
qed

lemma example_resolved:
  "resolved example_fs [''URL'', ''TEXT''] ''a.parquet'' = [''url'', ''caption'']"
  "resolved example_fs [''URL'', ''TEXT''] ''b.parquet'' = [''URL'', ''TEXT'']"
  "resolved example_fs [''URL'', ''TEXT''] ''c.parquet'' = [''url'']"
  "resolved example_fs [''URL'', ''TEXT''] ''d.parquet'' = []"
  by (simp_all add: resolved_def read_schema_def example_fs_def resolve_columns_def
      lower_def upper_def lower_char_def upper_char_def)


lemma uniform_resolved:
  "resolved uniform_fs [''URL'', ''TEXT''] ''a.parquet'' = [''url'', ''caption'']"
  "resolved uniform_fs [''URL'', ''TEXT''] ''b.parquet'' = [''url'', ''caption'']"
  "resolved uniform_fs [''URL'', ''TEXT''] ''c.parquet'' = [''url'']"
  "resolved uniform_fs [''URL'', ''TEXT''] ''d.parquet'' = []"
  by (simp_all add: resolved_def read_schema_def uniform_fs_def example_fs_def resolve_columns_def
      lower_def upper_def lower_char_def upper_char_def)

lemma uniform_num_rows:
  "num_rows (uniform_fs ''a.parquet'') = 100"
  "num_rows (uniform_fs ''b.parquet'') = 100"
  "num_rows (uniform_fs ''c.parquet'') = 2"
  "num_rows (uniform_fs ''d.parquet'') = 3"
  by (simp_all add: num_rows_def uniform_fs_def example_fs_def example_rows_def)







section \<open>Order of processing\<close>

lemma build_subset_uniform:
  assumes "\<forall>p\<in>set shard_paths. resolved fs columns p = m" and "m \<noteq> []"
  shows "fst (build_subset fs shard_paths out_parquet max_rows columns) = Inr ()
     \<and> output_rows (snd (build_subset fs shard_paths out_parquet max_rows columns)) =
         (if max_rows = 0
          then concat (map (\<lambda>q. rows (projected fs columns q)) (sort shard_paths))
          else take max_rows (concat (map (\<lambda>q. rows (projected fs columns q)) (sort shard_paths))))"
proof (cases rule: build_subset_cases [of fs max_rows columns shard_paths])
  case through
  from runs_through_uniform(2) [OF through]
  have "max_rows = 0 \<or> total_rows fs (sort shard_paths) < max_rows"
    by simp
  then show ?thesis
    by (auto simp: build_subset_through [OF through] output_rows_def comp_def)
next
  case (raise pre p rest)
  have "p \<in> set (sort shard_paths)"
    unfolding raise(1) by simp
  then have "resolved fs columns p \<noteq> []"
    using assms by simp
  with raise(3) show ?thesis by simp
next
  case (mismatch pre p rest)
  have "p \<in> set (sort shard_paths)" "hd pre \<in> set (sort shard_paths)"
    unfolding mismatch(1) using mismatch(3) by simp_all
  then have "resolved fs columns p = resolved fs columns (hd pre)"
    using assms(1) by simp
  with mismatch(5) show ?thesis by simp
next
  case (break pre p rest)
  from runs_through_uniform(2) [OF break(2)] break(5)
  have lt: "total_rows fs pre < max_rows"
    by simp
  have "take max_rows (concat (map (\<lambda>q. rows (projected fs columns q)) (pre @ p # rest)))
      = concat (map (\<lambda>q. rows (projected fs columns q)) pre)
        @ take (max_rows - total_rows fs pre) (rows (projected fs columns p))"
    using lt break(6) by simp
  then show ?thesis
    using break(5)
    by (simp add: build_subset_break [OF break] output_rows_def comp_def break(1))
qed

lemma build_subset_reads_prefix:
  "\<exists>k. schemas_read (events (snd (build_subset fs shard_paths out_parquet max_rows columns)))
         = take k (sort shard_paths)"
proof (cases rule: build_subset_cases [of fs max_rows columns shard_paths])
  case through
  have "schemas_read (events (snd (build_subset fs shard_paths out_parquet max_rows columns)))
          = take (length (sort shard_paths)) (sort shard_paths)"
    by (simp add: build_subset_through [OF through])
  then show ?thesis by blast
next
  case (raise pre p rest)
  have "schemas_read (events (snd (build_subset fs shard_paths out_parquet max_rows columns)))
          = take (Suc (length pre)) (sort shard_paths)"
    by (simp add: build_subset_raise [OF raise] raise(1))
  then show ?thesis by blast
next
  case (mismatch pre p rest)
  have "schemas_read (events (snd (build_subset fs shard_paths out_parquet max_rows columns)))
          = take (Suc (length pre)) (sort shard_paths)"
    by (simp add: build_subset_mismatch [OF mismatch] mismatch(1))
  then show ?thesis by blast
next
  case (break pre p rest)
  have "schemas_read (events (snd (build_subset fs shard_paths out_parquet max_rows columns)))
          = take (Suc (length pre)) (sort shard_paths)"
    by (simp add: build_subset_break [OF break] break(1))
  then show ?thesis by blast
qed

lemma build_subset_output_prefix:
  "\<exists>k. output_rows (snd (build_subset fs shard_paths out_parquet max_rows columns))
         = take k (concat (map (\<lambda>q. rows (projected fs columns q)) (sort shard_paths)))"
proof (cases rule: build_subset_cases [of fs max_rows columns shard_paths])
  case through
  have "output_rows (snd (build_subset fs shard_paths out_parquet max_rows columns))
      = take (total_rows fs shard_paths)
          (concat (map (\<lambda>q. rows (projected fs columns q)) (sort shard_paths)))"
    by (simp add: build_subset_through [OF through] output_rows_def comp_def)
  then show ?thesis by blast
next
  case (raise pre p rest)
  have "output_rows (snd (build_subset fs shard_paths out_parquet max_rows columns))
      = take (total_rows fs pre)
          (concat (map (\<lambda>q. rows (projected fs columns q)) (sort shard_paths)))"
    by (simp add: build_subset_raise [OF raise] output_rows_def comp_def raise(1))
  then show ?thesis by blast
next
  case (mismatch pre p rest)
  have "output_rows (snd (build_subset fs shard_paths out_parquet max_rows columns))
      = take (total_rows fs pre)
          (concat (map (\<lambda>q. rows (projected fs columns q)) (sort shard_paths)))"
    by (simp add: build_subset_mismatch [OF mismatch] output_rows_def comp_def mismatch(1))
  then show ?thesis by blast
next
  case (break pre p rest)
  from runs_through_uniform(2) [OF break(2)] break(5)
  have lt: "total_rows fs pre < max_rows"
    by simp
  have "output_rows (snd (build_subset fs shard_paths out_parquet max_rows columns))
      = take max_rows
          (concat (map (\<lambda>q. rows (projected fs columns q)) (sort shard_paths)))"
    using lt break(6)
    by (simp add: build_subset_break [OF break] output_rows_def comp_def break(1))
  then show ?thesis by blast
qed

text \<open>
  Claim C2. The shards are processed in ascending order of their paths, not in the order
  given: the schemas read, in the order they are read, are an initial segment of the sorted
  path list; two path lists that are permutations of each other give the same run (the same
  outcome, the same writer contents, the same events); the output rows are an initial
  segment of the rows of the shards taken in sorted order. For the paths \<open>b.parquet\<close>,
  \<open>a.parquet\<close> the output is therefore an initial segment of the rows of \<open>a.parquet\<close>
  followed by the rows of \<open>b.parquet\<close>, and when both resolve to the same column names it is
  all of them (cut at the cap when there is one).
\<close>

theorem build_subset_sorted_order:
  "(\<exists>k. schemas_read (events (snd (build_subset fs shard_paths out_parquet max_rows columns)))
         = take k (sort shard_paths))
   \<and> (mset shard_paths = mset shard_paths' \<longrightarrow>
        build_subset fs shard_paths out_parquet max_rows columns
          = build_subset fs shard_paths' out_parquet max_rows columns)
   \<and> (\<exists>k. output_rows (snd (build_subset fs shard_paths out_parquet max_rows columns))
         = take k (concat (map (\<lambda>q. rows (projected fs columns q)) (sort shard_paths))))
   \<and> (\<exists>k. output_rows (snd (build_subset fs [''b.parquet'', ''a.parquet''] out_parquet max_rows columns))
         = take k (rows (projected fs columns ''a.parquet'')
                   @ rows (projected fs columns ''b.parquet'')))
   \<and> (resolved fs columns ''a.parquet'' \<noteq> []
        \<and> resolved fs columns ''b.parquet'' = resolved fs columns ''a.parquet'' \<longrightarrow>
        output_rows (snd (build_subset fs [''b.parquet'', ''a.parquet''] out_parquet max_rows columns))
          = (if max_rows = 0
             then rows (projected fs columns ''a.parquet'') @ rows (projected fs columns ''b.parquet'')
             else take max_rows
                    (rows (projected fs columns ''a.parquet'')
                     @ rows (projected fs columns ''b.parquet''))))"
proof (intro conjI impI)
  show "\<exists>k. schemas_read (events (snd (build_subset fs shard_paths out_parquet max_rows columns)))
         = take k (sort shard_paths)"
    by (rule build_subset_reads_prefix)
next
  assume "mset shard_paths = mset shard_paths'"
  then have "sort shard_paths = sort shard_paths'"
    by (rule sort_mset_eq)
  then show "build_subset fs shard_paths out_parquet max_rows columns
          = build_subset fs shard_paths' out_parquet max_rows columns"
    by (simp add: build_subset_def)
next
  show "\<exists>k. output_rows (snd (build_subset fs shard_paths out_parquet max_rows columns))
         = take k (concat (map (\<lambda>q. rows (projected fs columns q)) (sort shard_paths)))"
    by (rule build_subset_output_prefix)
next
  from build_subset_output_prefix [of fs "[''b.parquet'', ''a.parquet'']" out_parquet max_rows columns]
  show "\<exists>k. output_rows (snd (build_subset fs [''b.parquet'', ''a.parquet''] out_parquet max_rows columns))
         = take k (rows (projected fs columns ''a.parquet'')
                   @ rows (projected fs columns ''b.parquet''))"
    by (simp del: take_append)
next
  assume "resolved fs columns ''a.parquet'' \<noteq> []
        \<and> resolved fs columns ''b.parquet'' = resolved fs columns ''a.parquet''"
  then have "\<forall>p\<in>set [''b.parquet'', ''a.parquet'']. resolved fs columns p
      = resolved fs columns ''a.parquet''" and "resolved fs columns ''a.parquet'' \<noteq> []"
    by simp_all
  from build_subset_uniform [OF this, of out_parquet max_rows]
  show "output_rows (snd (build_subset fs [''b.parquet'', ''a.parquet''] out_parquet max_rows columns))
          = (if max_rows = 0
             then rows (projected fs columns ''a.parquet'') @ rows (projected fs columns ''b.parquet'')
             else take max_rows
                    (rows (projected fs columns ''a.parquet'')
                     @ rows (projected fs columns ''b.parquet'')))"
    by (simp del: take_append)
qed

theorem build_subset_sorted_order_witness:
  "mset [''b.parquet'', ''a.parquet''] = mset [''a.parquet'', ''b.parquet'']
   \<and> resolved uniform_fs [''URL'', ''TEXT''] ''a.parquet'' = [''url'', ''caption'']
   \<and> resolved uniform_fs [''URL'', ''TEXT''] ''b.parquet'' = [''url'', ''caption'']
   \<and> build_subset uniform_fs [''b.parquet'', ''a.parquet''] ''out/subset.parquet'' 0 [''URL'', ''TEXT'']
       = build_subset uniform_fs [''a.parquet'', ''b.parquet''] ''out/subset.parquet'' 0 [''URL'', ''TEXT'']
   \<and> output_rows (snd (build_subset uniform_fs [''b.parquet'', ''a.parquet''] ''out/subset.parquet'' 0
         [''URL'', ''TEXT'']))
       = rows (projected uniform_fs [''URL'', ''TEXT''] ''a.parquet'')
         @ rows (projected uniform_fs [''URL'', ''TEXT''] ''b.parquet'')"
proof -
  note h = build_subset_sorted_order [where fs = uniform_fs
      and shard_paths = "[''b.parquet'', ''a.parquet'']"
      and shard_paths' = "[''a.parquet'', ''b.parquet'']"
      and out_parquet = "''out/subset.parquet''" and max_rows = 0 and columns = "[''URL'', ''TEXT'']"]
  have m: "mset [''b.parquet'', ''a.parquet''] = mset [''a.parquet'', ''b.parquet'']"
    by simp
  have e: "build_subset uniform_fs [''b.parquet'', ''a.parquet''] ''out/subset.parquet'' 0
        [''URL'', ''TEXT'']
       = build_subset uniform_fs [''a.parquet'', ''b.parquet''] ''out/subset.parquet'' 0
        [''URL'', ''TEXT'']"
    using h m by blast
  have pr: "resolved uniform_fs [''URL'', ''TEXT''] ''a.parquet'' \<noteq> []
        \<and> resolved uniform_fs [''URL'', ''TEXT''] ''b.parquet''
          = resolved uniform_fs [''URL'', ''TEXT''] ''a.parquet''"
    by (simp add: uniform_resolved)
  have o: "output_rows (snd (build_subset uniform_fs [''b.parquet'', ''a.parquet''] ''out/subset.parquet'' 0
         [''URL'', ''TEXT'']))
       = rows (projected uniform_fs [''URL'', ''TEXT''] ''a.parquet'')
         @ rows (projected uniform_fs [''URL'', ''TEXT''] ''b.parquet'')"
    using h [THEN conjunct2, THEN conjunct2, THEN conjunct2, THEN conjunct2, THEN mp, OF pr]
    by simp
  show ?thesis
    using m e o by (simp add: uniform_resolved)
qed

section \<open>No cap\<close>




section \<open>The two errors\<close>








lemma example_sort_dca:
  "sort [''d.parquet'', ''c.parquet'', ''a.parquet'']
     = [''a.parquet''] @ ''c.parquet'' # [''d.parquet'']"
  "sort [''e.parquet'', ''d.parquet'', ''c.parquet'']
     = [''c.parquet''] @ ''d.parquet'' # [''e.parquet'']"
  by simp_all


section \<open>Stopping at the cap\<close>

lemma build_subset_cap_reached:
  assumes "0 < max_rows"
    and "max_rows \<le> rows_written (snd (build_subset fs shard_paths out_parquet max_rows columns))"
  shows "fst (build_subset fs shard_paths out_parquet max_rows columns) = Inr ()
     \<and> rows_written (snd (build_subset fs shard_paths out_parquet max_rows columns)) = max_rows
     \<and> schemas_read (events (snd (build_subset fs shard_paths out_parquet max_rows columns)))
         = take (length (batches (snd (build_subset fs shard_paths out_parquet max_rows columns))))
             (sort shard_paths)
     \<and> tables_read (events (snd (build_subset fs shard_paths out_parquet max_rows columns)))
         = take (length (batches (snd (build_subset fs shard_paths out_parquet max_rows columns))))
             (sort shard_paths)"
proof (cases rule: build_subset_cases [of fs max_rows columns shard_paths])
  case through
  from runs_through_uniform(2) [OF through] assms show ?thesis
    by (simp add: build_subset_through [OF through])
next
  case (raise pre p rest)
  from runs_through_uniform(2) [OF raise(2)] assms show ?thesis
    by (simp add: build_subset_raise [OF raise])
next
  case (mismatch pre p rest)
  from runs_through_uniform(2) [OF mismatch(2)] assms show ?thesis
    by (simp add: build_subset_mismatch [OF mismatch])
next
  case (break pre p rest)
  from runs_through_uniform(2) [OF break(2)] break(5)
  have "total_rows fs pre < max_rows"
    by simp
  then show ?thesis
    using break(6) by (auto simp: build_subset_break [OF break] break(1))
qed

lemma build_subset_all_consumed:
  assumes "fst (build_subset fs shard_paths out_parquet max_rows columns) = Inr ()"
    and "max_rows = 0
      \<or> rows_written (snd (build_subset fs shard_paths out_parquet max_rows columns)) < max_rows"
  shows "schemas_read (events (snd (build_subset fs shard_paths out_parquet max_rows columns)))
         = sort shard_paths
     \<and> tables_read (events (snd (build_subset fs shard_paths out_parquet max_rows columns)))
         = sort shard_paths"
proof (cases rule: build_subset_cases [of fs max_rows columns shard_paths])
  case through
  show ?thesis
    by (simp add: build_subset_through [OF through])
next
  case (raise pre p rest)
  with assms(1) show ?thesis
    by (simp add: build_subset_raise [OF raise])
next
  case (mismatch pre p rest)
  with assms(1) show ?thesis
    by (simp add: build_subset_mismatch [OF mismatch])
next
  case (break pre p rest)
  from runs_through_uniform(2) [OF break(2)] break(5)
  have "total_rows fs pre < max_rows"
    by simp
  then have "rows_written (snd (build_subset fs shard_paths out_parquet max_rows columns)) = max_rows"
    using break(6) by (auto simp: build_subset_break [OF break])
  with assms(2) break(5) show ?thesis
    by simp
qed

text \<open>
  Claim C8. With a positive \<open>max_rows\<close>, a run whose written row count reaches the cap
  returns at once: it has read exactly the shards whose batches it wrote, so nothing after
  the shard that reached the cap is read. In terms of the shards: when the shards before \<open>p\<close>
  in sorted order resolve to the names of \<open>p\<close> and stay below the cap and \<open>p\<close> brings the
  count to the cap, the run returns having read those shards and \<open>p\<close> only, whatever follows
  \<open>p\<close> in sorted order (a shard there that resolves nothing raises nothing). A run that
  returns without having reached the cap (\<open>max_rows = 0\<close>, or fewer rows than the cap) has
  read every shard; this is the case when all the shards resolve to the same non-empty names
  and \<open>max_rows\<close> is 0 or above the total row count.
\<close>

theorem build_subset_stops_at_cap:
  "(0 < max_rows
      \<and> max_rows \<le> rows_written (snd (build_subset fs shard_paths out_parquet max_rows columns)) \<longrightarrow>
      fst (build_subset fs shard_paths out_parquet max_rows columns) = Inr ()
      \<and> rows_written (snd (build_subset fs shard_paths out_parquet max_rows columns)) = max_rows
      \<and> schemas_read (events (snd (build_subset fs shard_paths out_parquet max_rows columns)))
          = take (length (batches (snd (build_subset fs shard_paths out_parquet max_rows columns))))
              (sort shard_paths)
      \<and> tables_read (events (snd (build_subset fs shard_paths out_parquet max_rows columns)))
          = take (length (batches (snd (build_subset fs shard_paths out_parquet max_rows columns))))
              (sort shard_paths))
   \<and> (0 < max_rows \<and> sort shard_paths = pre @ p # rest
      \<and> resolved fs columns p \<noteq> []
      \<and> (\<forall>q\<in>set pre. resolved fs columns q = resolved fs columns p)
      \<and> total_rows fs pre < max_rows \<and> max_rows \<le> total_rows fs pre + num_rows (fs p) \<longrightarrow>
      fst (build_subset fs shard_paths out_parquet max_rows columns) = Inr ()
      \<and> schemas_read (events (snd (build_subset fs shard_paths out_parquet max_rows columns)))
          = pre @ [p]
      \<and> tables_read (events (snd (build_subset fs shard_paths out_parquet max_rows columns)))
          = pre @ [p]
      \<and> rows_written (snd (build_subset fs shard_paths out_parquet max_rows columns)) = max_rows)
   \<and> (fst (build_subset fs shard_paths' out_parquet max_rows' columns) = Inr ()
      \<and> (max_rows' = 0
          \<or> rows_written (snd (build_subset fs shard_paths' out_parquet max_rows' columns)) < max_rows')
      \<longrightarrow>
      schemas_read (events (snd (build_subset fs shard_paths' out_parquet max_rows' columns)))
          = sort shard_paths'
      \<and> tables_read (events (snd (build_subset fs shard_paths' out_parquet max_rows' columns)))
          = sort shard_paths')
   \<and> ((\<forall>q\<in>set shard_paths'. resolved fs columns q \<noteq> []
          \<and> resolved fs columns q = resolved fs columns (hd (sort shard_paths')))
        \<and> (max_rows' = 0 \<or> total_rows fs shard_paths' < max_rows') \<longrightarrow>
      fst (build_subset fs shard_paths' out_parquet max_rows' columns) = Inr ()
      \<and> schemas_read (events (snd (build_subset fs shard_paths' out_parquet max_rows' columns)))
          = sort shard_paths'
      \<and> tables_read (events (snd (build_subset fs shard_paths' out_parquet max_rows' columns)))
          = sort shard_paths')"
proof (intro conjI impI)
  assume h: "0 < max_rows
      \<and> max_rows \<le> rows_written (snd (build_subset fs shard_paths out_parquet max_rows columns))"
  then have a: "0 < max_rows"
    and b: "max_rows \<le> rows_written (snd (build_subset fs shard_paths out_parquet max_rows columns))"
    by simp_all
  note c = build_subset_cap_reached [OF a b]
  show "fst (build_subset fs shard_paths out_parquet max_rows columns) = Inr ()"
    using c by blast
  show "rows_written (snd (build_subset fs shard_paths out_parquet max_rows columns)) = max_rows"
    using c by blast
  show "schemas_read (events (snd (build_subset fs shard_paths out_parquet max_rows columns)))
          = take (length (batches (snd (build_subset fs shard_paths out_parquet max_rows columns))))
              (sort shard_paths)"
    using c by blast
  show "tables_read (events (snd (build_subset fs shard_paths out_parquet max_rows columns)))
          = take (length (batches (snd (build_subset fs shard_paths out_parquet max_rows columns))))
              (sort shard_paths)"
    using c by blast
next
  assume h: "0 < max_rows \<and> sort shard_paths = pre @ p # rest
      \<and> resolved fs columns p \<noteq> []
      \<and> (\<forall>q\<in>set pre. resolved fs columns q = resolved fs columns p)
      \<and> total_rows fs pre < max_rows \<and> max_rows \<le> total_rows fs pre + num_rows (fs p)"
  then have eq: "build_subset fs shard_paths out_parquet max_rows columns =
           (Inr (), finish out_parquet
              (wrote out_parquet p (resolved fs columns p)
                 (slice (projected fs columns p) 0 (max_rows - total_rows fs pre))
                 (wrote_all fs out_parquet columns pre init_state)))"
    by (intro build_subset_truncates) simp_all
  show "fst (build_subset fs shard_paths out_parquet max_rows columns) = Inr ()"
    by (simp add: eq)
  show "schemas_read (events (snd (build_subset fs shard_paths out_parquet max_rows columns)))
          = pre @ [p]"
    by (simp add: eq)
  show "tables_read (events (snd (build_subset fs shard_paths out_parquet max_rows columns)))
          = pre @ [p]"
    by (simp add: eq)
  show "rows_written (snd (build_subset fs shard_paths out_parquet max_rows columns)) = max_rows"
    using h by (auto simp: eq)
next
  assume h: "fst (build_subset fs shard_paths' out_parquet max_rows' columns) = Inr ()
      \<and> (max_rows' = 0
          \<or> rows_written (snd (build_subset fs shard_paths' out_parquet max_rows' columns)) < max_rows')"
  then have a: "fst (build_subset fs shard_paths' out_parquet max_rows' columns) = Inr ()"
    and b: "max_rows' = 0
          \<or> rows_written (snd (build_subset fs shard_paths' out_parquet max_rows' columns)) < max_rows'"
    by simp_all
  note c = build_subset_all_consumed [OF a b]
  show "schemas_read (events (snd (build_subset fs shard_paths' out_parquet max_rows' columns)))
          = sort shard_paths'"
    using c by blast
  show "tables_read (events (snd (build_subset fs shard_paths' out_parquet max_rows' columns)))
          = sort shard_paths'"
    using c by blast
next
  assume h: "(\<forall>q\<in>set shard_paths'. resolved fs columns q \<noteq> []
          \<and> resolved fs columns q = resolved fs columns (hd (sort shard_paths')))
        \<and> (max_rows' = 0 \<or> total_rows fs shard_paths' < max_rows')"
  then have t: "runs_through fs max_rows' columns None 0 (sort shard_paths')"
    by (auto simp: runs_through_iff)
  note eq = build_subset_through [OF t, of out_parquet]
  show "fst (build_subset fs shard_paths' out_parquet max_rows' columns) = Inr ()"
    by (simp add: eq)
  show "schemas_read (events (snd (build_subset fs shard_paths' out_parquet max_rows' columns)))
          = sort shard_paths'"
    by (simp add: eq)
  show "tables_read (events (snd (build_subset fs shard_paths' out_parquet max_rows' columns)))
          = sort shard_paths'"
    by (simp add: eq)
qed

theorem build_subset_stops_at_cap_witness:
  "sort [''d.parquet'', ''b.parquet'', ''a.parquet''] = [''a.parquet''] @ ''b.parquet'' # [''d.parquet'']
   \<and> resolved uniform_fs [''URL'', ''TEXT''] ''a.parquet'' = [''url'', ''caption'']
   \<and> resolved uniform_fs [''URL'', ''TEXT''] ''b.parquet'' = [''url'', ''caption'']
   \<and> resolved uniform_fs [''URL'', ''TEXT''] ''d.parquet'' = []
   \<and> total_rows uniform_fs [''a.parquet''] = 100
   \<and> num_rows (uniform_fs ''b.parquet'') = 100
   \<and> fst (build_subset uniform_fs [''d.parquet'', ''b.parquet'', ''a.parquet''] ''out/subset.parquet'' 150
         [''URL'', ''TEXT'']) = Inr ()
   \<and> schemas_read (events (snd (build_subset uniform_fs [''d.parquet'', ''b.parquet'', ''a.parquet'']
         ''out/subset.parquet'' 150 [''URL'', ''TEXT''])))
       = [''a.parquet'', ''b.parquet'']
   \<and> rows_written (snd (build_subset uniform_fs [''d.parquet'', ''b.parquet'', ''a.parquet'']
         ''out/subset.parquet'' 150 [''URL'', ''TEXT''])) = 150
   \<and> schemas_read (events (snd (build_subset uniform_fs [''b.parquet'', ''a.parquet'']
         ''out/subset.parquet'' 500 [''URL'', ''TEXT''])))
       = [''a.parquet'', ''b.parquet'']"
proof -
  note h = build_subset_stops_at_cap [where fs = uniform_fs
      and shard_paths = "[''d.parquet'', ''b.parquet'', ''a.parquet'']"
      and out_parquet = "''out/subset.parquet''" and max_rows = 150 and columns = "[''URL'', ''TEXT'']"
      and pre = "[''a.parquet'']" and p = "''b.parquet''" and rest = "[''d.parquet'']"
      and shard_paths' = "[''b.parquet'', ''a.parquet'']" and max_rows' = 500]
  have pr2: "0 < (150::nat)
      \<and> sort [''d.parquet'', ''b.parquet'', ''a.parquet''] = [''a.parquet''] @ ''b.parquet'' # [''d.parquet'']
      \<and> resolved uniform_fs [''URL'', ''TEXT''] ''b.parquet'' \<noteq> []
      \<and> (\<forall>q\<in>set [''a.parquet'']. resolved uniform_fs [''URL'', ''TEXT''] q
            = resolved uniform_fs [''URL'', ''TEXT''] ''b.parquet'')
      \<and> total_rows uniform_fs [''a.parquet''] < 150
      \<and> 150 \<le> total_rows uniform_fs [''a.parquet''] + num_rows (uniform_fs ''b.parquet'')"
    by (simp add: uniform_resolved uniform_num_rows)
  note c2 = h [THEN conjunct2, THEN conjunct1, THEN mp, OF pr2]
  have pr4: "(\<forall>q\<in>set [''b.parquet'', ''a.parquet'']. resolved uniform_fs [''URL'', ''TEXT''] q \<noteq> []
          \<and> resolved uniform_fs [''URL'', ''TEXT''] q
            = resolved uniform_fs [''URL'', ''TEXT''] (hd (sort [''b.parquet'', ''a.parquet''])))
        \<and> ((500::nat) = 0 \<or> total_rows uniform_fs [''b.parquet'', ''a.parquet''] < 500)"
    by (simp add: uniform_resolved uniform_num_rows)
  note c4 = h [THEN conjunct2, THEN conjunct2, THEN conjunct2, THEN mp, OF pr4]
  show ?thesis
    using c2 c4 by (simp add: uniform_resolved uniform_num_rows)
qed

section \<open>An empty request\<close>

text \<open>
  Claim C10. With an empty list of requested columns and a non-empty list of shards, the
  run reads the schema of the first shard in sorted order and raises the resolution failure
  for it, whatever its schema is: no writer is opened, so no output file is created, and
  nothing else is read.
\<close>

theorem build_subset_empty_request:
  "shard_paths \<noteq> [] \<longrightarrow>
     build_subset fs shard_paths out_parquet max_rows [] =
       (Inl (ValueError [] (hd (sort shard_paths))
               (sort (remdups (names (fs (hd (sort shard_paths))))))),
        \<lparr>writer = None, rows_written = 0, events = [ReadSchema (hd (sort shard_paths))]\<rparr>)"
proof
  assume "shard_paths \<noteq> []"
  then obtain q qs where s: "sort shard_paths = [] @ q # qs"
    by (cases "sort shard_paths") (auto simp: sort_eq_Nil)
  have t: "runs_through fs max_rows [] None 0 []"
    by auto
  have r: "resolved fs [] q = []"
    by (simp add: resolved_def)
  show "build_subset fs shard_paths out_parquet max_rows [] =
       (Inl (ValueError [] (hd (sort shard_paths))
               (sort (remdups (names (fs (hd (sort shard_paths))))))),
        \<lparr>writer = None, rows_written = 0, events = [ReadSchema (hd (sort shard_paths))]\<rparr>)"
    using s by (simp add: build_subset_raise [OF s t r] read_schema_def emit_def init_state_def)
qed

theorem build_subset_empty_request_witness:
  "build_subset example_fs [''b.parquet'', ''a.parquet''] ''out/subset.parquet'' 150 [] =
     (Inl (ValueError [] ''a.parquet'' [''caption'', ''id'', ''url'']),
      \<lparr>writer = None, rows_written = 0, events = [ReadSchema ''a.parquet'']\<rparr>)"
  using build_subset_empty_request [where fs = example_fs
      and shard_paths = "[''b.parquet'', ''a.parquet'']"
      and out_parquet = "''out/subset.parquet''" and max_rows = 150]
  by (simp add: example_fs_def)


section \<open>Closing the writer\<close>

text \<open>
  Claim C5 asks that the writer be closed on every exit, the raising one included. The
  source closes it only after the loop (line 88), which the \<^verbatim>\<open>raise\<close> of line 71 never
  reaches. For the paths \<open>d.parquet\<close>, \<open>c.parquet\<close> and the default request, the run writes
  the two rows of \<open>c.parquet\<close>, raises at \<open>d.parquet\<close>, and leaves the writer open.
\<close>

theorem build_subset_raise_leaves_writer_open:
  "build_subset example_fs [''d.parquet'', ''c.parquet''] ''out/subset.parquet'' 0 [''URL'', ''TEXT'']
     = (Inl (ValueError [''URL'', ''TEXT''] ''d.parquet'' [''id'', ''width'']),
        \<lparr>writer = Some \<lparr>w_path = ''out/subset.parquet'', w_schema = [''url''],
                          w_batches = [\<lparr>names = [''url''], rows = [[Some ''c''], [Some ''cr'']]\<rparr>],
                          is_open = True\<rparr>,
         rows_written = 2,
         events = [ReadSchema ''c.parquet'', ReadTable ''c.parquet'' [''url''], Makedirs ''out'',
                   Print (WroteSoFar 2), ReadSchema ''d.parquet'']\<rparr>)"
  by (simp add: build_subset_def process_shard_def Let_def example_fs_def example_rows_def
      read_schema_def read_table_def resolve_columns_def lower_def upper_def lower_char_def
      upper_char_def emit_def open_writer_def write_table_def init_state_def num_rows_def
      out_dir_def dirname_def cell_of_def slice_def upt_rec)

section \<open>The writer\<close>

lemma build_subset_writer:
  "writer (snd (build_subset fs shard_paths out_parquet max_rows columns)) =
     (if batches (snd (build_subset fs shard_paths out_parquet max_rows columns)) = [] then None
      else Some \<lparr>w_path = out_parquet,
                 w_schema = resolved fs columns (hd (sort shard_paths)),
                 w_batches = batches (snd (build_subset fs shard_paths out_parquet max_rows columns)),
                 is_open = (\<exists>e. fst (build_subset fs shard_paths out_parquet max_rows columns) = Inl e)\<rparr>)"
proof (cases rule: build_subset_cases [of fs max_rows columns shard_paths])
  case through
  show ?thesis
    unfolding build_subset_through [OF through]
    by (cases "sort shard_paths") (simp_all add: writer_finish writer_wrote_all_wrote_init)
next
  case (raise pre p rest)
  show ?thesis
    unfolding build_subset_raise [OF raise] raise(1)
    by (cases pre) (simp_all add: writer_wrote_all_wrote_init)
next
  case (mismatch pre p rest)
  show ?thesis
    unfolding build_subset_mismatch [OF mismatch] mismatch(1)
    by (cases pre) (simp_all add: writer_wrote_all_wrote_init)
next
  case (break pre p rest)
  show ?thesis
    unfolding build_subset_break [OF break] break(1)
    by (cases pre) (simp_all add: writer_finish writer_wrote writer_wrote_all_wrote_init)
qed


lemma hd_resolves:
  assumes "runs_through fs max_rows columns None 0 ps" and "ps \<noteq> []"
  shows "resolved fs columns (hd ps) \<noteq> []"
  using assms by (cases ps) (simp_all add: runs_through_Cons)

lemma build_subset_no_batches:
  "batches (snd (build_subset fs shard_paths out_parquet max_rows columns)) = [] \<longleftrightarrow>
     shard_paths = [] \<or> resolved fs columns (hd (sort shard_paths)) = []"
proof (cases rule: build_subset_cases [of fs max_rows columns shard_paths])
  case through
  have "shard_paths \<noteq> [] \<longrightarrow> resolved fs columns (hd (sort shard_paths)) \<noteq> []"
    using hd_resolves [OF through] by (simp add: sort_eq_Nil)
  then show ?thesis
    by (auto simp: build_subset_through [OF through] sort_eq_Nil)
next
  case (raise pre p rest)
  have ne: "shard_paths \<noteq> []"
    using raise(1) by auto
  show ?thesis
    using raise(2,3) ne
    by (cases pre) (simp_all add: build_subset_raise [OF raise] raise(1) runs_through_Cons)
next
  case (mismatch pre p rest)
  have ne: "shard_paths \<noteq> []"
    using mismatch(1) by auto
  show ?thesis
    using mismatch(2,3) ne
    by (cases pre) (simp_all add: build_subset_mismatch [OF mismatch] mismatch(1) runs_through_Cons)
next
  case (break pre p rest)
  have ne: "shard_paths \<noteq> []"
    using break(1) by auto
  show ?thesis
    using break(2,3) ne
    by (cases pre) (simp_all add: build_subset_break [OF break] break(1) runs_through_Cons)
qed

lemma build_subset_dirs_made:
  "dirs_made (events (snd (build_subset fs shard_paths out_parquet max_rows columns))) =
     (if batches (snd (build_subset fs shard_paths out_parquet max_rows columns)) = [] then []
      else [out_dir out_parquet])"
proof (cases rule: build_subset_cases [of fs max_rows columns shard_paths])
  case through
  show ?thesis
    by (simp add: build_subset_through [OF through])
next
  case (raise pre p rest)
  show ?thesis
    by (simp add: build_subset_raise [OF raise])
next
  case (mismatch pre p rest)
  show ?thesis
    by (simp add: build_subset_mismatch [OF mismatch])
next
  case (break pre p rest)
  show ?thesis
    by (simp add: build_subset_break [OF break])
qed





section \<open>Creating the output file\<close>

lemma build_subset_no_data:
  "NoDataWritten \<in> set (printed (events (snd (build_subset fs shard_paths out_parquet max_rows columns))))
     \<longleftrightarrow> shard_paths = []"
proof (cases rule: build_subset_cases [of fs max_rows columns shard_paths])
  case through
  show ?thesis
    by (simp add: build_subset_through [OF through] printed_finish sort_eq_Nil)
next
  case (raise pre p rest)
  have ne: "shard_paths \<noteq> []"
    using raise(1) by auto
  show ?thesis
    using ne by (simp add: build_subset_raise [OF raise])
next
  case (mismatch pre p rest)
  have ne: "shard_paths \<noteq> []"
    using mismatch(1) by auto
  show ?thesis
    using ne by (simp add: build_subset_mismatch [OF mismatch])
next
  case (break pre p rest)
  have ne: "shard_paths \<noteq> []"
    using break(1) by auto
  show ?thesis
    using ne by (simp add: build_subset_break [OF break] printed_finish)
qed

lemma build_subset_Nil:
  "build_subset fs [] out_parquet max_rows columns =
     (Inr (), \<lparr>writer = None, rows_written = 0, events = [Print NoDataWritten]\<rparr>)"
  by (simp add: build_subset_def finish_def init_state_def emit_def)

lemma build_subset_first_fails_iff:
  "shard_paths \<noteq> [] \<and> batches (snd (build_subset fs shard_paths out_parquet max_rows columns)) = []
   \<longleftrightarrow>
   build_subset fs shard_paths out_parquet max_rows columns =
     (Inl (ValueError columns (hd (sort shard_paths))
             (sort (remdups (names (fs (hd (sort shard_paths))))))),
      \<lparr>writer = None, rows_written = 0, events = [ReadSchema (hd (sort shard_paths))]\<rparr>)"
proof (cases rule: build_subset_cases [of fs max_rows columns shard_paths])
  case through
  show ?thesis
    by (simp add: build_subset_through [OF through] sort_eq_Nil)
next
  case (raise pre p rest)
  have ne: "shard_paths \<noteq> []"
    using raise(1) by auto
  show ?thesis
  proof (cases pre)
    case Nil
    then show ?thesis
      using ne
      by (simp add: build_subset_raise [OF raise] raise(1) read_schema_def emit_def init_state_def
          batches_def)
  next
    case (Cons q qs)
    then have pne: "pre \<noteq> []"
      by simp
    then have "writer (emit (ReadSchema p) (wrote_all fs out_parquet columns pre init_state)) \<noteq> None"
      by simp
    moreover have "writer \<lparr>writer = None, rows_written = 0,
        events = [ReadSchema (hd (sort shard_paths))]\<rparr> = None"
      by simp
    ultimately have ne1: "emit (ReadSchema p) (wrote_all fs out_parquet columns pre init_state)
        \<noteq> \<lparr>writer = None, rows_written = 0, events = [ReadSchema (hd (sort shard_paths))]\<rparr>"
      by metis
    have l: "batches (snd (build_subset fs shard_paths out_parquet max_rows columns)) \<noteq> []"
      using pne by (simp add: build_subset_raise [OF raise])
    have "snd (build_subset fs shard_paths out_parquet max_rows columns)
        \<noteq> \<lparr>writer = None, rows_written = 0, events = [ReadSchema (hd (sort shard_paths))]\<rparr>"
      using ne1 by (simp add: build_subset_raise [OF raise])
    then have "build_subset fs shard_paths out_parquet max_rows columns \<noteq>
       (Inl (ValueError columns (hd (sort shard_paths))
             (sort (remdups (names (fs (hd (sort shard_paths))))))),
        \<lparr>writer = None, rows_written = 0, events = [ReadSchema (hd (sort shard_paths))]\<rparr>)"
      by (metis snd_conv)
    with l show ?thesis
      by blast
  qed
next
  case (mismatch pre p rest)
  show ?thesis
    using mismatch(3) by (simp add: build_subset_mismatch [OF mismatch])
next
  case (break pre p rest)
  show ?thesis
    by (simp add: build_subset_break [OF break])
qed

text \<open>
  Claim C6, as stated, fails: a run in which no shard is written need not return normally.
  For the single path \<open>d.parquet\<close>, which has none of the requested columns, no batch is
  written and no writer is opened, but the run raises and reports nothing.
\<close>

theorem build_subset_nothing_written_counterexample:
  "\<not> (batches (snd (build_subset example_fs [''d.parquet''] ''out/subset.parquet'' 0
            [''URL'', ''TEXT''])) = []
      \<longrightarrow> writer (snd (build_subset example_fs [''d.parquet''] ''out/subset.parquet'' 0
            [''URL'', ''TEXT''])) = None
        \<and> fst (build_subset example_fs [''d.parquet''] ''out/subset.parquet'' 0
            [''URL'', ''TEXT'']) = Inr ()
        \<and> NoDataWritten \<in> set (printed (events (snd (build_subset example_fs [''d.parquet'']
            ''out/subset.parquet'' 0 [''URL'', ''TEXT''])))))"
proof -
  have "build_subset example_fs [''d.parquet''] ''out/subset.parquet'' 0 [''URL'', ''TEXT'']
     = (Inl (ValueError [''URL'', ''TEXT''] ''d.parquet'' [''id'', ''width'']),
        \<lparr>writer = None, rows_written = 0, events = [ReadSchema ''d.parquet'']\<rparr>)"
    by (simp add: build_subset_def process_shard_def Let_def example_fs_def
        read_schema_def resolve_columns_def lower_def upper_def lower_char_def
        upper_char_def emit_def init_state_def)
  then show ?thesis
    by (simp add: batches_def)
qed

text \<open>
  Claim C6, amended. The writer is opened (the output file and, just before it, its parent
  directory are created) exactly when the path list is not empty and its first shard in
  sorted order resolves at least one column, which is also exactly when some batch is
  written; the directory is made at most once, and only then. For an empty path list the
  run returns normally with no writer, no rows, and the single report that no data was
  written, and that report is made for the empty path list only. A non-empty path list
  writes nothing exactly when the run raises the resolution failure at its first sorted
  shard, having read only that shard's schema and reported nothing.
\<close>

theorem build_subset_output_creation:
  "(writer (snd (build_subset fs shard_paths out_parquet max_rows columns)) \<noteq> None
      \<longleftrightarrow> shard_paths \<noteq> [] \<and> resolved fs columns (hd (sort shard_paths)) \<noteq> [])
   \<and> (batches (snd (build_subset fs shard_paths out_parquet max_rows columns)) = []
      \<longleftrightarrow> writer (snd (build_subset fs shard_paths out_parquet max_rows columns)) = None)
   \<and> dirs_made (events (snd (build_subset fs shard_paths out_parquet max_rows columns)))
       = (if writer (snd (build_subset fs shard_paths out_parquet max_rows columns)) = None then []
          else [out_dir out_parquet])
   \<and> build_subset fs [] out_parquet max_rows columns
       = (Inr (), \<lparr>writer = None, rows_written = 0, events = [Print NoDataWritten]\<rparr>)
   \<and> (NoDataWritten
        \<in> set (printed (events (snd (build_subset fs shard_paths out_parquet max_rows columns))))
      \<longleftrightarrow> shard_paths = [])
   \<and> (shard_paths \<noteq> []
        \<and> batches (snd (build_subset fs shard_paths out_parquet max_rows columns)) = []
      \<longleftrightarrow> build_subset fs shard_paths out_parquet max_rows columns =
            (Inl (ValueError columns (hd (sort shard_paths))
                    (sort (remdups (names (fs (hd (sort shard_paths))))))),
             \<lparr>writer = None, rows_written = 0, events = [ReadSchema (hd (sort shard_paths))]\<rparr>))"
proof -
  let ?r = "build_subset fs shard_paths out_parquet max_rows columns"
  have w: "batches (snd ?r) = [] \<longleftrightarrow> writer (snd ?r) = None"
    using build_subset_writer [of fs shard_paths out_parquet max_rows columns]
    by (simp split: if_splits)
  have a: "writer (snd ?r) \<noteq> None
      \<longleftrightarrow> shard_paths \<noteq> [] \<and> resolved fs columns (hd (sort shard_paths)) \<noteq> []"
    using build_subset_no_batches [of fs shard_paths out_parquet max_rows columns] w by simp
  have d: "dirs_made (events (snd ?r)) = (if writer (snd ?r) = None then [] else [out_dir out_parquet])"
    using build_subset_dirs_made [of fs shard_paths out_parquet max_rows columns] w by simp
  show ?thesis
    using a w d build_subset_Nil [of fs out_parquet max_rows columns]
      build_subset_no_data [of fs shard_paths out_parquet max_rows columns]
      build_subset_first_fails_iff [of shard_paths fs out_parquet max_rows columns]
    by blast
qed

theorem build_subset_output_creation_witness:
  "writer (snd (build_subset example_fs [''d.parquet''] ''out/subset.parquet'' 0 [''URL'', ''TEXT'']))
     = None
   \<and> dirs_made (events (snd (build_subset example_fs [''d.parquet''] ''out/subset.parquet'' 0
         [''URL'', ''TEXT'']))) = []
   \<and> NoDataWritten \<notin> set (printed (events (snd (build_subset example_fs [''d.parquet'']
         ''out/subset.parquet'' 0 [''URL'', ''TEXT'']))))
   \<and> build_subset example_fs [''d.parquet''] ''out/subset.parquet'' 0 [''URL'', ''TEXT'']
       = (Inl (ValueError [''URL'', ''TEXT''] ''d.parquet'' [''id'', ''width'']),
          \<lparr>writer = None, rows_written = 0, events = [ReadSchema ''d.parquet'']\<rparr>)
   \<and> build_subset example_fs [] ''out/subset.parquet'' 0 [''URL'', ''TEXT'']
       = (Inr (), \<lparr>writer = None, rows_written = 0, events = [Print NoDataWritten]\<rparr>)"
proof -
  note h = build_subset_output_creation [where fs = example_fs
      and shard_paths = "[''d.parquet'']" and out_parquet = "''out/subset.parquet''"
      and max_rows = 0 and columns = "[''URL'', ''TEXT'']"]
  have n: "sort (remdups (names (example_fs ''d.parquet''))) = [''id'', ''width'']"
    by (simp add: example_fs_def)
  have w: "writer (snd (build_subset example_fs [''d.parquet''] ''out/subset.parquet'' 0
      [''URL'', ''TEXT''])) = None"
    using h by (simp add: example_resolved)
  have b: "batches (snd (build_subset example_fs [''d.parquet''] ''out/subset.parquet'' 0
      [''URL'', ''TEXT''])) = []"
    using h w by blast
  have e: "build_subset example_fs [''d.parquet''] ''out/subset.parquet'' 0 [''URL'', ''TEXT'']
       = (Inl (ValueError [''URL'', ''TEXT''] ''d.parquet'' [''id'', ''width'']),
          \<lparr>writer = None, rows_written = 0, events = [ReadSchema ''d.parquet'']\<rparr>)"
    using h b by (simp add: n)
  have d: "dirs_made (events (snd (build_subset example_fs [''d.parquet''] ''out/subset.parquet'' 0
         [''URL'', ''TEXT'']))) = []"
    using h w by simp
  have m: "NoDataWritten \<notin> set (printed (events (snd (build_subset example_fs [''d.parquet'']
         ''out/subset.parquet'' 0 [''URL'', ''TEXT'']))))"
    using h by simp
  have z: "build_subset example_fs [] ''out/subset.parquet'' 0 [''URL'', ''TEXT'']
       = (Inr (), \<lparr>writer = None, rows_written = 0, events = [Print NoDataWritten]\<rparr>)"
    using h by blast
  show ?thesis
    using w d m e z by blast
qed

end
